theory Spec2Isabelle
  imports Complex_Main "HOL-Library.Word" "HOL-Library.Char_ord" "HOL-Library.Sublist"
begin

section \<open>JavaScript values\<close>

text \<open>
  The server code of the support console (\<^verbatim>\<open>support-plugin.ts\<close>) handles values typed
  \<^verbatim>\<open>unknown\<close>: database columns and parsed JSON.  They are modelled by the datatype
  \<open>jsval\<close>: undefined, null, booleans, numbers, strings and plain objects.  An object is
  the map of its own enumerable properties.  An array is the object of its index
  properties in every function below that only reads or spreads it.

  A string is a list of UTF-16 code units; the model keeps the code units below 256, one
  \<open>char\<close> each.

  A number is a finite value, an infinity or NaN.  Finite values are kept as exact
  rationals: the rounding of a decimal literal or of a sum to the nearest IEEE double is
  not modelled (it is the identity on the counts and on the short decimal amounts this
  code meets), only the overflow to an infinity is.  Negative zero is identified with
  zero.
\<close>

datatype jsnum = Fin rat | PInf | NInf | NaN

datatype jsval =
    JUndefined
  | JNull
  | JBool bool
  | JNum jsnum
  | JStr string
  | JObj "string \<Rightarrow> jsval option"

type_synonym jsobj = "string \<Rightarrow> jsval option"

text \<open>\<^verbatim>\<open>typeof v\<close>.\<close>

fun typeof :: "jsval \<Rightarrow> string" where
  "typeof JUndefined = ''undefined''"
| "typeof JNull = ''object''"
| "typeof (JBool b) = ''boolean''"
| "typeof (JNum n) = ''number''"
| "typeof (JStr s) = ''string''"
| "typeof (JObj m) = ''object''"

text \<open>\<^verbatim>\<open>!v\<close> is true exactly on the values that are not truthy.\<close>

fun truthy :: "jsval \<Rightarrow> bool" where
  "truthy JUndefined = False"
| "truthy JNull = False"
| "truthy (JBool b) = b"
| "truthy (JNum n) = (n \<noteq> NaN \<and> n \<noteq> Fin 0)"
| "truthy (JStr s) = (s \<noteq> [])"
| "truthy (JObj m) = True"

text \<open>\<^verbatim>\<open>a ?? b\<close>: the right operand replaces undefined and null only.\<close>

fun nullish :: "jsval \<Rightarrow> bool" where
  "nullish JUndefined = True"
| "nullish JNull = True"
| "nullish v = False"

definition coalesce :: "jsval \<Rightarrow> jsval \<Rightarrow> jsval" where
  "coalesce a b = (if nullish a then b else a)"

text \<open>\<^verbatim>\<open>raw.key\<close> on a plain object: an absent property reads as undefined.\<close>

definition get_prop :: "jsobj \<Rightarrow> string \<Rightarrow> jsval" where
  "get_prop m k = (case m k of None \<Rightarrow> JUndefined | Some v \<Rightarrow> v)"

subsection \<open>Strings and character classes\<close>

text \<open>
  White space as \<^verbatim>\<open>String.prototype.trim\<close>, the regular expression class \<^verbatim>\<open>\s\<close> and the
  numeric string grammar know it, among the code units below 256: TAB, LF, VT, FF, CR,
  SP and NBSP.
\<close>

definition is_space :: "char \<Rightarrow> bool" where
  "is_space c = (c = CHR 0x09 \<or> c = CHR 0x0A \<or> c = CHR 0x0B \<or> c = CHR 0x0C
     \<or> c = CHR 0x0D \<or> c = CHR 0x20 \<or> c = CHR 0xA0)"

definition is_digit :: "char \<Rightarrow> bool" where
  "is_digit c = (CHR ''0'' \<le> c \<and> c \<le> CHR ''9'')"

definition is_hex :: "char \<Rightarrow> bool" where
  "is_hex c = (is_digit c \<or> (CHR ''a'' \<le> c \<and> c \<le> CHR ''f'') \<or> (CHR ''A'' \<le> c \<and> c \<le> CHR ''F''))"

text \<open>The class \<^verbatim>\<open>\w\<close>, which decides the word boundary \<^verbatim>\<open>\b\<close>.\<close>

definition is_word :: "char \<Rightarrow> bool" where
  "is_word c = (is_digit c \<or> (CHR ''a'' \<le> c \<and> c \<le> CHR ''z'')
     \<or> (CHR ''A'' \<le> c \<and> c \<le> CHR ''Z'') \<or> c = CHR ''_'')"

definition trim :: "string \<Rightarrow> string" where
  "trim s = rev (dropWhile is_space (rev (dropWhile is_space s)))"

subsection \<open>Numeric coercion\<close>

text \<open>
  \<^verbatim>\<open>Number(s)\<close> on a string follows the StringNumericLiteral grammar of ECMAScript:
  white space around an optional literal; the empty literal is 0; a literal is a signed
  decimal (digits, an optional fraction, an optional exponent, or \<^verbatim>\<open>Infinity\<close>) or an
  unsigned binary, octal or hexadecimal integer; anything else is NaN.
\<close>

definition digit_of :: "char \<Rightarrow> nat" where
  "digit_of c =
     (if is_digit c then of_char c - 48
      else if CHR ''a'' \<le> c \<and> c \<le> CHR ''f'' then of_char c - 87
      else of_char c - 55)"

fun digits_value :: "nat \<Rightarrow> nat \<Rightarrow> string \<Rightarrow> nat" where
  "digits_value b acc [] = acc"
| "digits_value b acc (c # cs) = digits_value b (acc * b + digit_of c) cs"

text \<open>A result at or beyond the rounding threshold of the largest double is an infinity.\<close>

definition to_double :: "rat \<Rightarrow> jsnum" where
  "to_double q =
     (if 2 ^ 1024 - 2 ^ 970 \<le> \<bar>q\<bar> then (if 0 < q then PInf else NInf) else Fin q)"

definition pow10 :: "int \<Rightarrow> rat" where
  "pow10 e = (if 0 \<le> e then 10 ^ nat e else 1 / 10 ^ nat (- e))"

definition ExponentPart :: "string \<Rightarrow> int option" where
  "ExponentPart t =
     (case t of
        [] \<Rightarrow> Some 0
      | c # r \<Rightarrow>
          if c = CHR ''e'' \<or> c = CHR ''E'' then
            (let neg = (case r of [] \<Rightarrow> False | d # _ \<Rightarrow> d = CHR ''-'');
                 ds = (case r of [] \<Rightarrow> []
                       | d # r' \<Rightarrow> if d = CHR ''-'' \<or> d = CHR ''+'' then r' else r)
             in if ds \<noteq> [] \<and> list_all is_digit ds
                then Some (if neg then - int (digits_value 10 0 ds)
                           else int (digits_value 10 0 ds))
                else None)
          else None)"

definition StrUnsignedDecimalLiteral :: "string \<Rightarrow> jsnum option" where
  "StrUnsignedDecimalLiteral t =
     (if t = ''Infinity'' then Some PInf
      else
        (let ip = takeWhile is_digit t;
             r1 = dropWhile is_digit t;
             dot = (case r1 of [] \<Rightarrow> False | c # _ \<Rightarrow> c = CHR ''.'');
             fp = (if dot then takeWhile is_digit (tl r1) else []);
             r2 = (if dot then dropWhile is_digit (tl r1) else r1)
         in if ip = [] \<and> fp = [] then None
            else (case ExponentPart r2 of
                    None \<Rightarrow> None
                  | Some e \<Rightarrow>
                      Some (to_double (of_nat (digits_value 10 0 (ip @ fp))
                                        * pow10 (e - int (length fp)))))))"

fun js_neg :: "jsnum \<Rightarrow> jsnum" where
  "js_neg (Fin q) = Fin (- q)"
| "js_neg PInf = NInf"
| "js_neg NInf = PInf"
| "js_neg NaN = NaN"

definition NonDecimalIntegerLiteral :: "string \<Rightarrow> jsnum option" where
  "NonDecimalIntegerLiteral t =
     (case t of
        z # x # ds \<Rightarrow>
          if z = CHR ''0'' \<and> ds \<noteq> [] then
            (if (x = CHR ''x'' \<or> x = CHR ''X'') \<and> list_all is_hex ds
               then Some (to_double (of_nat (digits_value 16 0 ds)))
             else if (x = CHR ''o'' \<or> x = CHR ''O'')
                     \<and> list_all (\<lambda>c. CHR ''0'' \<le> c \<and> c \<le> CHR ''7'') ds
               then Some (to_double (of_nat (digits_value 8 0 ds)))
             else if (x = CHR ''b'' \<or> x = CHR ''B'')
                     \<and> list_all (\<lambda>c. c = CHR ''0'' \<or> c = CHR ''1'') ds
               then Some (to_double (of_nat (digits_value 2 0 ds)))
             else None)
          else None
      | _ \<Rightarrow> None)"

definition StrNumericLiteral :: "string \<Rightarrow> jsnum option" where
  "StrNumericLiteral t =
     (case NonDecimalIntegerLiteral t of
        Some n \<Rightarrow> Some n
      | None \<Rightarrow>
          (case t of
             [] \<Rightarrow> None
           | c # r \<Rightarrow>
               if c = CHR ''+'' then StrUnsignedDecimalLiteral r
               else if c = CHR ''-'' then map_option js_neg (StrUnsignedDecimalLiteral r)
               else StrUnsignedDecimalLiteral t))"

definition StringToNumber :: "string \<Rightarrow> jsnum" where
  "StringToNumber s =
     (let t = trim s
      in if t = [] then Fin 0
         else (case StrNumericLiteral t of None \<Rightarrow> NaN | Some n \<Rightarrow> n))"

text \<open>\<^verbatim>\<open>Number(v)\<close>.  A plain object converts through \<^verbatim>\<open>"[object Object]"\<close> to NaN.\<close>

fun Number :: "jsval \<Rightarrow> jsnum" where
  "Number JUndefined = NaN"
| "Number JNull = Fin 0"
| "Number (JBool b) = (if b then Fin 1 else Fin 0)"
| "Number (JNum n) = n"
| "Number (JStr s) = StringToNumber s"
| "Number (JObj m) = NaN"

text \<open>\<^verbatim>\<open>Number.isFinite\<close> on a number.\<close>

fun isFinite :: "jsnum \<Rightarrow> bool" where
  "isFinite (Fin q) = True"
| "isFinite PInf = False"
| "isFinite NInf = False"
| "isFinite NaN = False"

text \<open>Addition and the comparison \<^verbatim>\<open>a > b\<close> of numbers.\<close>

fun js_add :: "jsnum \<Rightarrow> jsnum \<Rightarrow> jsnum" where
  "js_add NaN y = NaN"
| "js_add x NaN = NaN"
| "js_add PInf NInf = NaN"
| "js_add NInf PInf = NaN"
| "js_add PInf y = PInf"
| "js_add x PInf = PInf"
| "js_add NInf y = NInf"
| "js_add x NInf = NInf"
| "js_add (Fin a) (Fin b) = to_double (a + b)"

fun js_gt :: "jsnum \<Rightarrow> jsnum \<Rightarrow> bool" where
  "js_gt NaN y = False"
| "js_gt x NaN = False"
| "js_gt PInf y = (y \<noteq> PInf)"
| "js_gt x PInf = False"
| "js_gt x NInf = (x \<noteq> NInf)"
| "js_gt NInf y = False"
| "js_gt (Fin a) (Fin b) = (b < a)"

section \<open>Case status and next action\<close>

datatype CaseStatus = Pending | In_progress | Done | Blocked

text \<open>The string the server sends for a status.\<close>

fun status_label :: "CaseStatus \<Rightarrow> string" where
  "status_label Pending = ''pending''"
| "status_label In_progress = ''in_progress''"
| "status_label Done = ''done''"
| "status_label Blocked = ''blocked''"

text \<open>
  \<^verbatim>\<open>deriveCaseStatus\<close>.  Its parameter object has six fields typed \<^verbatim>\<open>unknown\<close>; they are
  the six arguments, in the order of the source.  The local \<^verbatim>\<open>status\<close> is the stored status
  when that is a string and null otherwise.
\<close>

definition activityCount :: "jsval \<Rightarrow> jsval \<Rightarrow> jsval \<Rightarrow> jsnum" where
  "activityCount actionCount replyCount regenCount =
     js_add (js_add (Number (coalesce actionCount (JNum (Fin 0))))
                    (Number (coalesce replyCount (JNum (Fin 0)))))
            (Number (coalesce regenCount (JNum (Fin 0))))"

text \<open>\<^verbatim>\<open>typeof v === "string" ? v : null\<close>, with \<open>None\<close> for null.\<close>

fun string_or_null :: "jsval \<Rightarrow> string option" where
  "string_or_null (JStr s) = Some s"
| "string_or_null v = None"

text \<open>\<^verbatim>\<open>v === true\<close>.\<close>

fun is_true :: "jsval \<Rightarrow> bool" where
  "is_true (JBool b) = b"
| "is_true v = False"

definition deriveCaseStatus ::
  "jsval \<Rightarrow> jsval \<Rightarrow> jsval \<Rightarrow> jsval \<Rightarrow> jsval \<Rightarrow> jsval \<Rightarrow> CaseStatus" where
  "deriveCaseStatus status hasRefund hasCredit actionCount replyCount regenCount =
     (let st = string_or_null status in
      if st = Some ''blocked'' then Blocked
      else if is_true hasRefund \<or> is_true hasCredit \<or> st = Some ''done'' then Done
      else if js_gt (activityCount actionCount replyCount regenCount) (Fin 0)
              \<or> st = Some ''in_progress''
        then In_progress
        else Pending)"

text \<open>\<^verbatim>\<open>deriveNextAction\<close>: a case status and three booleans.\<close>

definition deriveNextAction :: "CaseStatus \<Rightarrow> bool \<Rightarrow> bool \<Rightarrow> bool \<Rightarrow> string" where
  "deriveNextAction caseStatus hasReply hasRefund hasCredit =
     (if caseStatus = Pending then ''review_report''
      else if caseStatus = Blocked then ''investigate_blocker''
      else if caseStatus = Done then (if hasReply then ''monitor'' else ''send_customer_reply'')
      else if hasReply \<and> \<not> hasRefund \<and> \<not> hasCredit then ''apply_resolution_or_regenerate''
      else if \<not> hasReply \<and> (hasRefund \<or> hasCredit) then ''send_customer_reply''
      else ''continue_investigation'')"

section \<open>The request detail route\<close>

text \<open>
  The rows the handler of \<^verbatim>\<open>GET /requests/:id\<close> reads.  A \<^verbatim>\<open>TIMESTAMPTZ\<close> column arrives
  as a \<^verbatim>\<open>Date\<close>; it is modelled by its time value, the milliseconds since the epoch.  A
  nullable \<^verbatim>\<open>TEXT\<close> column is a \<open>string option\<close>, \<open>None\<close> for null.  The field prefixes
  are the variables the source binds the rows to (\<^verbatim>\<open>rr\<close>, \<^verbatim>\<open>rp\<close>, \<^verbatim>\<open>ac\<close>, \<^verbatim>\<open>rt\<close>).
\<close>

record request_row =
  ts :: int
  report_source :: string

record regeneration_row =
  rr_created_at :: int
  rr_actor :: "string option"
  rr_operator_context :: "string option"

record reply_row =
  rp_created_at :: int
  rp_sent_by :: "string option"
  rp_message_text :: "string option"

record action_row =
  ac_action_type :: string
  ac_created_at :: int
  ac_actor :: "string option"
  ac_amount_usd :: jsval
  ac_status :: jsval

record rating_row =
  rt_created_at :: int
  rt_actor :: "string option"
  rt_rating :: string
  rt_reason_code :: "string option"

record status_row =
  sr_status :: string
  sr_last_action :: "string option"
  sr_updated_at :: int

subsection \<open>Case state\<close>

record case_state =
  case_status :: CaseStatus
  next_action :: string
  has_reply :: bool
  has_refund :: bool
  has_credit :: bool
  action_count :: nat
  reply_count :: nat
  regen_count :: nat

text \<open>\<^verbatim>\<open>statusRow.rows[0]?.status\<close>: undefined when there is no stored status record.\<close>

definition stored_status :: "status_row list \<Rightarrow> jsval" where
  "stored_status statusRows = (case statusRows of [] \<Rightarrow> JUndefined | r # _ \<Rightarrow> JStr (sr_status r))"

text \<open>\<^verbatim>\<open>rows.length\<close> as a number.\<close>

definition length_num :: "'a list \<Rightarrow> jsval" where
  "length_num rows = JNum (Fin (of_nat (length rows)))"

text \<open>The \<^verbatim>\<open>case_state\<close> object of the response (its status, next action, flags and counts).\<close>

definition detail_case_state ::
  "action_row list \<Rightarrow> reply_row list \<Rightarrow> regeneration_row list \<Rightarrow> status_row list \<Rightarrow> case_state" where
  "detail_case_state actions replies regenerations statusRows =
     (let hasRefund = list_ex (\<lambda>a. ac_action_type a = ''apply_refund'') actions;
          hasCredit = list_ex (\<lambda>a. ac_action_type a = ''apply_credit'') actions;
          hasReply = (0 < length replies \<or> list_ex (\<lambda>a. ac_action_type a = ''send_reply'') actions);
          status = stored_status statusRows;
          caseStatus = deriveCaseStatus status (JBool hasRefund) (JBool hasCredit)
                         (length_num actions) (length_num replies) (length_num regenerations)
      in \<lparr> case_status = caseStatus,
           next_action = deriveNextAction caseStatus hasReply hasRefund hasCredit,
           has_reply = hasReply,
           has_refund = hasRefund,
           has_credit = hasCredit,
           action_count = length actions,
           reply_count = length replies,
           regen_count = length regenerations \<rparr>)"

subsection \<open>Timeline\<close>

text \<open>The \<^verbatim>\<open>details\<close> object of a timeline event, one shape per kind of event.\<close>

datatype details =
    Source_details string
  | Regeneration_details "string option"
  | Reply_details string
  | Action_details jsval jsval
  | Rating_details string "string option"

record event =
  event_type :: string
  event_at :: int
  actor :: "string option"
  details :: details

text \<open>
  The sort key \<^verbatim>\<open>new Date(String(d)).getTime()\<close> of a \<^verbatim>\<open>Date\<close> with time value \<open>d\<close>.
  \<^verbatim>\<open>String(d)\<close> is \<^verbatim>\<open>Date.prototype.toString\<close>, which prints the date down to the second
  and has no field for the milliseconds; parsing that text gives the instant of the whole
  second at or before \<open>d\<close>.
\<close>

definition getTime_of_String :: "int \<Rightarrow> int" where
  "getTime_of_String d = (d div 1000) * 1000"

text \<open>The comparator handed to \<^verbatim>\<open>sort\<close>.\<close>

definition timeline_compare :: "event \<Rightarrow> event \<Rightarrow> int" where
  "timeline_compare a b = getTime_of_String (event_at b) - getTime_of_String (event_at a)"

text \<open>
  \<^verbatim>\<open>Array.prototype.sort\<close> with a comparator: a stable sort, an element \<open>x\<close> staying before
  the elements \<open>y\<close> behind it unless the comparator is positive on \<open>x\<close> and \<open>y\<close>.  On a
  comparator that is the difference of two keys every stable sort returns this list.
\<close>

fun sort_insert :: "('a \<Rightarrow> 'a \<Rightarrow> int) \<Rightarrow> 'a \<Rightarrow> 'a list \<Rightarrow> 'a list" where
  "sort_insert cmp x [] = [x]"
| "sort_insert cmp x (y # ys) =
     (if cmp x y \<le> 0 then x # y # ys else y # sort_insert cmp x ys)"

definition js_sort :: "('a \<Rightarrow> 'a \<Rightarrow> int) \<Rightarrow> 'a list \<Rightarrow> 'a list" where
  "js_sort cmp xs = foldr (sort_insert cmp) xs []"

definition regeneration_event :: "regeneration_row \<Rightarrow> event" where
  "regeneration_event rr =
     \<lparr> event_type = ''report_regenerated'', event_at = rr_created_at rr,
       actor = rr_actor rr, details = Regeneration_details (rr_operator_context rr) \<rparr>"

definition reply_event :: "reply_row \<Rightarrow> event" where
  "reply_event rp =
     \<lparr> event_type = ''reply_sent'', event_at = rp_created_at rp, actor = rp_sent_by rp,
       details = Reply_details (case rp_message_text rp of None \<Rightarrow> '''' | Some t \<Rightarrow> t) \<rparr>"

definition action_event :: "action_row \<Rightarrow> event" where
  "action_event ac =
     \<lparr> event_type = ac_action_type ac, event_at = ac_created_at ac, actor = ac_actor ac,
       details = Action_details (coalesce (ac_amount_usd ac) JNull)
                                (coalesce (ac_status ac) JNull) \<rparr>"

definition rating_event :: "rating_row \<Rightarrow> event" where
  "rating_event rt =
     \<lparr> event_type = ''response_rated'', event_at = rt_created_at rt, actor = rt_actor rt,
       details = Rating_details (rt_rating rt) (rt_reason_code rt) \<rparr>"

text \<open>The \<^verbatim>\<open>timeline\<close> array of the response.\<close>

definition timeline ::
  "request_row \<Rightarrow> regeneration_row list \<Rightarrow> reply_row list \<Rightarrow> action_row list
     \<Rightarrow> rating_row list \<Rightarrow> event list" where
  "timeline row regenerations replies actions ratingsRows =
     js_sort timeline_compare
       (\<lparr> event_type = ''report_generated'', event_at = ts row, actor = None,
           details = Source_details (report_source row) \<rparr>
        # map regeneration_event regenerations
        @ map reply_event replies
        @ map action_event actions
        @ map rating_event ratingsRows)"

text \<open>Descending order of the event times, as the specification asks of the timeline.\<close>

fun descending :: "int list \<Rightarrow> bool" where
  "descending [] = True"
| "descending (x # xs) = (list_all (\<lambda>y. y \<le> x) xs \<and> descending xs)"

section \<open>Report parsing and normalization\<close>

definition DEFAULT_REPORT :: jsobj where
  "DEFAULT_REPORT =
     [''credit_recommendation'' \<mapsto> JNull,
      ''refund_recommendation'' \<mapsto> JNull,
      ''draft_response'' \<mapsto> JStr '''',
      ''past_interactions_summary'' \<mapsto> JStr '''',
      ''order_details_summary'' \<mapsto> JStr '''',
      ''decision_confidence'' \<mapsto> JStr ''medium'',
      ''escalation_flag'' \<mapsto> JBool False]"

text \<open>The decimal numeral of an index, the property key of a string's code unit.\<close>

fun decimal :: "nat \<Rightarrow> string" where
  "decimal n =
     (if n < 10 then [char_of (48 + n)]
      else decimal (n div 10) @ [char_of (48 + n mod 10)])"

text \<open>
  The properties an object spread \<^verbatim>\<open>{...v}\<close> copies: the own enumerable properties of an
  object, the code units of a string under their indices, and none of undefined, null, a
  boolean or a number.
\<close>

fun own_properties :: "jsval \<Rightarrow> jsobj" where
  "own_properties (JObj m) = m"
| "own_properties (JStr s) = map_of (zip (map decimal [0..<length s]) (map (\<lambda>c. JStr [c]) s))"
| "own_properties v = Map.empty"

text \<open>
  \<^verbatim>\<open>JSON.parse\<close> is a built-in of the language: it is the parameter \<open>JSON_parse\<close>, which
  returns the parsed value or throws a \<^verbatim>\<open>SyntaxError\<close>.
\<close>

datatype exn = SyntaxError

text \<open>
  The \<^verbatim>\<open>try\<close> block of \<^verbatim>\<open>parseAgentReport\<close>: it throws (\<open>Inl\<close>), returns a report
  (\<open>Inr (Some r)\<close>) or runs to its end without returning (\<open>Inr None\<close>).
\<close>

definition parseAgentReport_try :: "(string \<Rightarrow> exn + jsval) \<Rightarrow> jsval \<Rightarrow> exn + jsobj option" where
  "parseAgentReport_try JSON_parse v =
     (case v of
        JStr s \<Rightarrow>
          (case JSON_parse s of
             Inl e \<Rightarrow> Inl e
           | Inr parsed \<Rightarrow> Inr (Some (DEFAULT_REPORT ++ own_properties parsed)))
      | _ \<Rightarrow>
          if truthy v \<and> typeof v = ''object''
          then Inr (Some (DEFAULT_REPORT ++ own_properties v))
          else Inr None)"

text \<open>
  \<^verbatim>\<open>parseAgentReport\<close>: the \<^verbatim>\<open>catch\<close> clause swallows what the block throws, and the
  function then returns a copy of the default report.
\<close>

definition parseAgentReport :: "(string \<Rightarrow> exn + jsval) \<Rightarrow> jsval \<Rightarrow> exn + jsobj" where
  "parseAgentReport JSON_parse v =
     (case parseAgentReport_try JSON_parse v of
        Inl e \<Rightarrow> Inr DEFAULT_REPORT
      | Inr (Some r) \<Rightarrow> Inr r
      | Inr None \<Rightarrow> Inr DEFAULT_REPORT)"

subsection \<open>Recommendations\<close>

definition toNullableNumber :: "jsval \<Rightarrow> jsnum option" where
  "toNullableNumber v =
     (case v of
        JNum n \<Rightarrow> if isFinite n then Some n else None
      | JStr s \<Rightarrow> (let parsed = StringToNumber s in if isFinite parsed then Some parsed else None)
      | _ \<Rightarrow> None)"

text \<open>\<^verbatim>\<open>a ?? b\<close> on the results of \<^verbatim>\<open>toNullableNumber\<close>, \<open>None\<close> being null.\<close>

definition or_else :: "'a option \<Rightarrow> 'a option \<Rightarrow> 'a option" where
  "or_else a b = (case a of None \<Rightarrow> b | Some x \<Rightarrow> Some x)"

text \<open>The test of \<^verbatim>\<open>reasonCandidates.find\<close>: a string that is not empty once trimmed.\<close>

fun is_reason :: "jsval \<Rightarrow> bool" where
  "is_reason (JStr r) = (0 < length (trim r))"
| "is_reason v = False"

definition normalizeRecommendation :: "jsval \<Rightarrow> jsval" where
  "normalizeRecommendation v =
     (if \<not> truthy v \<or> typeof v \<noteq> ''object'' then JNull
      else
        (let raw = own_properties v;
             amount =
               or_else (toNullableNumber (get_prop raw ''amount_usd''))
                 (or_else (toNullableNumber (get_prop raw ''amount''))
                    (or_else (toNullableNumber (get_prop raw ''credit_amount''))
                       (toNullableNumber (get_prop raw ''refund_amount''))));
             reasonCandidates =
               [get_prop raw ''reason'', get_prop raw ''credit_reason'',
                get_prop raw ''refund_reason''];
             reason = List.find is_reason reasonCandidates
         in JObj (raw(''amount_usd'' \<mapsto> (case amount of None \<Rightarrow> JNull | Some n \<Rightarrow> JNum n),
                      ''reason'' \<mapsto>
                        (case reason of
                           Some r \<Rightarrow> r
                         | None \<Rightarrow> coalesce (get_prop raw ''reason'') (JStr ''''))))))"

text \<open>
  The specification's words for the two choices: the first candidate that coerces to a
  finite number, and the first candidate that is a non-empty string.
\<close>

definition first_finite :: "jsval list \<Rightarrow> jsval" where
  "first_finite candidates =
     (case List.find (\<lambda>c. toNullableNumber c \<noteq> None) candidates of
        None \<Rightarrow> JNull
      | Some c \<Rightarrow> (case toNullableNumber c of None \<Rightarrow> JNull | Some n \<Rightarrow> JNum n))"

fun is_nonempty_string :: "jsval \<Rightarrow> bool" where
  "is_nonempty_string (JStr r) = (r \<noteq> [])"
| "is_nonempty_string v = False"

definition first_nonempty_string :: "jsval list \<Rightarrow> jsval option" where
  "first_nonempty_string candidates = List.find is_nonempty_string candidates"

section \<open>The credential cache\<close>

text \<open>
  \<^verbatim>\<open>createPasswordCallback\<close> returns a closure over two variables, \<^verbatim>\<open>cached\<close> and
  \<^verbatim>\<open>refreshPromise\<close>.  JavaScript runs the closure's body without interruption up to the
  promise it returns, and runs the rest of the refresh (the assignment to \<^verbatim>\<open>cached\<close> and
  the \<^verbatim>\<open>finally\<close> clause) as a later step, once \<^verbatim>\<open>fetchOAuthToken\<close> has settled.  The model
  is a state with these two steps.  A promise is the number of the fetch that settles it;
  the state counts the calls of \<^verbatim>\<open>fetchOAuthToken\<close>.  \<open>expiresAt\<close> is \<open>None\<close> when the
  expiry time of the response does not parse (NaN).
\<close>

record TokenCache =
  token :: string
  expiresAt :: "int option"

record callback_state =
  cached :: "TokenCache option"
  refreshPromise :: "nat option"
  fetches :: nat

definition CACHE_BUFFER_MS :: int where
  "CACHE_BUFFER_MS = 2 * 60 * 1000"

text \<open>What a call of the closure returns: the cached token, or the shared promise.\<close>

datatype answer = Cached_token string | Refresh nat

text \<open>\<^verbatim>\<open>cached && now < cached.expiresAt - CACHE_BUFFER_MS\<close>.\<close>

definition fresh :: "int \<Rightarrow> TokenCache option \<Rightarrow> bool" where
  "fresh now c =
     (case c of
        None \<Rightarrow> False
      | Some t \<Rightarrow> (case expiresAt t of None \<Rightarrow> False | Some e \<Rightarrow> now < e - CACHE_BUFFER_MS))"

text \<open>One call of the closure at the time \<open>now\<close>.\<close>

definition getToken :: "int \<Rightarrow> callback_state \<Rightarrow> answer \<times> callback_state" where
  "getToken now s =
     (if fresh now (cached s) then (Cached_token (token (the (cached s))), s)
      else
        (case refreshPromise s of
           None \<Rightarrow>
             (Refresh (fetches s),
              s\<lparr> refreshPromise := Some (fetches s), fetches := Suc (fetches s) \<rparr>)
         | Some p \<Rightarrow> (Refresh p, s)))"

text \<open>
  The rest of the refresh, once \<^verbatim>\<open>fetchOAuthToken\<close> has returned a result (\<open>Inr\<close>) or
  thrown (\<open>Inl\<close>).
\<close>

definition settle :: "string + TokenCache \<Rightarrow> callback_state \<Rightarrow> callback_state" where
  "settle outcome s =
     (case outcome of
        Inr result \<Rightarrow> s\<lparr> cached := Some result, refreshPromise := None \<rparr>
      | Inl err \<Rightarrow> s\<lparr> refreshPromise := None \<rparr>)"

text \<open>What the caller holding an answer receives, given how each fetch settles.\<close>

definition received :: "(nat \<Rightarrow> string + TokenCache) \<Rightarrow> answer \<Rightarrow> string + string" where
  "received outcomes a =
     (case a of
        Cached_token t \<Rightarrow> Inr t
      | Refresh p \<Rightarrow> (case outcomes p of Inl err \<Rightarrow> Inl err | Inr result \<Rightarrow> Inr (token result)))"

text \<open>Calls issued one after the other with no refresh settling in between.\<close>

fun getToken_calls :: "int list \<Rightarrow> callback_state \<Rightarrow> answer list \<times> callback_state" where
  "getToken_calls [] s = ([], s)"
| "getToken_calls (now # nows) s =
     (let (a, s1) = getToken now s; (as, s2) = getToken_calls nows s1 in (a # as, s2))"

subsection \<open>Regular expressions\<close>

text \<open>
  The patterns of \<^verbatim>\<open>sanitizeDraftResponse\<close> are sequences of two kinds of atoms: the word
  boundary \<^verbatim>\<open>\b\<close>, and a character class under a greedy quantifier \<^verbatim>\<open>{lo,hi}\<close> (a single
  character is the class of that character with \<^verbatim>\<open>{1,1}\<close>, \<^verbatim>\<open>+\<close> is \<^verbatim>\<open>{1,}\<close>).  The flag
  \<^verbatim>\<open>i\<close> is written into the classes.
\<close>

datatype atom = Boundary | Chars "char \<Rightarrow> bool" nat "nat option"

text \<open>\<^verbatim>\<open>\b\<close> holds between a word character and a character that is none, or an end.\<close>

definition word_before :: "char option \<Rightarrow> bool" where
  "word_before prev = (case prev of None \<Rightarrow> False | Some c \<Rightarrow> is_word c)"

definition word_next :: "string \<Rightarrow> bool" where
  "word_next s = (case s of [] \<Rightarrow> False | c # _ \<Rightarrow> is_word c)"

definition boundary :: "char option \<Rightarrow> string \<Rightarrow> bool" where
  "boundary prev s = (word_before prev \<noteq> word_next s)"

text \<open>
  A greedy quantifier takes as many characters as it may and gives them back one at a
  time while the rest of the pattern fails: \<open>try_counts lo n f\<close> tries the counts \<open>n\<close>,
  \<open>n - 1\<close>, down to \<open>lo\<close>.
\<close>

fun try_counts :: "nat \<Rightarrow> nat \<Rightarrow> (nat \<Rightarrow> nat option) \<Rightarrow> nat option" where
  "try_counts lo 0 f = (if lo = 0 then f 0 else None)"
| "try_counts lo (Suc n) f =
     (if Suc n < lo then None
      else (case f (Suc n) of Some r \<Rightarrow> Some r | None \<Rightarrow> try_counts lo n f))"

text \<open>
  \<open>match_at p prev s\<close>: the length of the match of the pattern \<open>p\<close> at the start of \<open>s\<close>,
  where \<open>prev\<close> is the character before \<open>s\<close> in the subject.
\<close>

primrec match_at :: "atom list \<Rightarrow> char option \<Rightarrow> string \<Rightarrow> nat option" where
  "match_at [] prev s = Some 0"
| "match_at (a # p) prev s =
     (case a of
        Boundary \<Rightarrow> if boundary prev s then match_at p prev s else None
      | Chars cl lo hi \<Rightarrow>
          (let avail = length (takeWhile cl s);
               n = (case hi of None \<Rightarrow> avail | Some h \<Rightarrow> min h avail)
           in try_counts lo n
                (\<lambda>k. map_option (\<lambda>r. k + r)
                       (match_at p (if k = 0 then prev else Some (s ! (k - 1))) (drop k s)))))"

text \<open>
  \<^verbatim>\<open>subject.replace(/p/g, rep)\<close>: the subject is scanned from the left; a match is
  replaced and the scan goes on behind it; an empty match is replaced and the scan moves
  on by one character.
\<close>

function replace_from :: "atom list \<Rightarrow> string \<Rightarrow> char option \<Rightarrow> string \<Rightarrow> string" where
  "replace_from p rep prev [] = (case match_at p prev [] of None \<Rightarrow> [] | Some _ \<Rightarrow> rep)"
| "replace_from p rep prev (c # cs) =
     (case match_at p prev (c # cs) of
        None \<Rightarrow> c # replace_from p rep (Some c) cs
      | Some 0 \<Rightarrow> rep @ c # replace_from p rep (Some c) cs
      | Some (Suc n) \<Rightarrow> rep @ replace_from p rep (Some ((c # cs) ! n)) (drop n cs))"
  by pat_completeness auto
termination
  by (relation "measure (\<lambda>(p, rep, prev, s). length s)") auto

definition replace_all :: "atom list \<Rightarrow> string \<Rightarrow> string \<Rightarrow> string" where
  "replace_all p rep s = replace_from p rep None s"

text \<open>A character of the pattern under the flag \<^verbatim>\<open>i\<close>, and one that has no other case.\<close>

definition ci :: "char \<Rightarrow> char \<Rightarrow> char \<Rightarrow> bool" where
  "ci lower upper c = (c = lower \<or> c = upper)"

definition one :: "(char \<Rightarrow> bool) \<Rightarrow> atom" where
  "one cl = Chars cl 1 (Some 1)"

definition exactly :: "nat \<Rightarrow> (char \<Rightarrow> bool) \<Rightarrow> atom" where
  "exactly n cl = Chars cl n (Some n)"

definition at_least :: "nat \<Rightarrow> (char \<Rightarrow> bool) \<Rightarrow> atom" where
  "at_least n cl = Chars cl n None"

definition dash :: "char \<Rightarrow> bool" where
  "dash c = (c = CHR ''-'')"

text \<open>\<^verbatim>\<open>/\buser-\d+\b/gi\<close>\<close>

definition user_id_pattern :: "atom list" where
  "user_id_pattern =
     [Boundary, one (ci CHR ''u'' CHR ''U''), one (ci CHR ''s'' CHR ''S''),
      one (ci CHR ''e'' CHR ''E''), one (ci CHR ''r'' CHR ''R''), one dash,
      at_least 1 is_digit, Boundary]"

text \<open>
  \<^verbatim>\<open>/\b[0-9a-f]{8}-[0-9a-f]{4}-[1-5][0-9a-f]{3}-[89ab][0-9a-f]{3}-[0-9a-f]{12}\b/gi\<close>
\<close>

definition uuid_pattern :: "atom list" where
  "uuid_pattern =
     [Boundary, exactly 8 is_hex, one dash, exactly 4 is_hex, one dash,
      one (\<lambda>c. CHR ''1'' \<le> c \<and> c \<le> CHR ''5''), exactly 3 is_hex, one dash,
      one (\<lambda>c. c = CHR ''8'' \<or> c = CHR ''9'' \<or> c = CHR ''a'' \<or> c = CHR ''b''
                \<or> c = CHR ''A'' \<or> c = CHR ''B''),
      exactly 3 is_hex, one dash, exactly 12 is_hex, Boundary]"

text \<open>\<^verbatim>\<open>/\b[0-9a-f]{32}\b/gi\<close>\<close>

definition hex32_pattern :: "atom list" where
  "hex32_pattern = [Boundary, exactly 32 is_hex, Boundary]"

text \<open>\<^verbatim>\<open>/\border\s+[0-9a-f]{8,}\b/gi\<close>\<close>

definition order_hex_pattern :: "atom list" where
  "order_hex_pattern =
     [Boundary, one (ci CHR ''o'' CHR ''O''), one (ci CHR ''r'' CHR ''R''),
      one (ci CHR ''d'' CHR ''D''), one (ci CHR ''e'' CHR ''E''),
      one (ci CHR ''r'' CHR ''R''), at_least 1 is_space, at_least 8 is_hex, Boundary]"

text \<open>\<^verbatim>\<open>/\s{2,}/g\<close>\<close>

definition spaces_pattern :: "atom list" where
  "spaces_pattern = [at_least 2 is_space]"

subsection \<open>Display names and the draft response\<close>

definition FIRST_NAMES :: "string list" where
  "FIRST_NAMES = [''Alex'', ''Sam'', ''Jordan'', ''Taylor'', ''Morgan'', ''Casey'', ''Riley'',
     ''Avery'', ''Cameron'', ''Quinn'']"

definition LAST_NAMES :: "string list" where
  "LAST_NAMES = [''Parker'', ''Hayes'', ''Brooks'', ''Reed'', ''Foster'', ''Bailey'', ''Carter'',
     ''Gray'', ''Miller'', ''Price'']"

text \<open>
  The loop of \<^verbatim>\<open>fakeDisplayName\<close>: \<^verbatim>\<open>hash = (hash * 31 + userId.charCodeAt(i)) >>> 0\<close>, an
  unsigned 32-bit value after each step.
\<close>

fun name_hash :: "32 word \<Rightarrow> string \<Rightarrow> 32 word" where
  "name_hash hash [] = hash"
| "name_hash hash (c # cs) = name_hash (hash * 31 + of_char c) cs"

text \<open>\<^verbatim>\<open>userId\<close> is a string, or null or undefined (\<open>None\<close>); the result \<open>None\<close> is null.\<close>

definition fakeDisplayName :: "string option \<Rightarrow> string option" where
  "fakeDisplayName userId =
     (case userId of
        None \<Rightarrow> None
      | Some u \<Rightarrow>
          if u = [] then None
          else
            (let hash = unat (name_hash 0 u);
                 first = FIRST_NAMES ! (hash mod length FIRST_NAMES);
                 last = LAST_NAMES ! ((hash div length FIRST_NAMES) mod length LAST_NAMES)
             in Some (first @ '' '' @ last)))"

text \<open>
  The two locals of \<^verbatim>\<open>sanitizeDraftResponse\<close>: the draft when it is a string and the empty
  string otherwise, and \<^verbatim>\<open>fakeDisplayName(userId) ?? "there"\<close>.
\<close>

definition draft_base :: "jsval \<Rightarrow> string" where
  "draft_base draft = (case draft of JStr s \<Rightarrow> s | _ \<Rightarrow> [])"

definition displayName :: "string option \<Rightarrow> string" where
  "displayName userId = (case fakeDisplayName userId of None \<Rightarrow> ''there'' | Some n \<Rightarrow> n)"

definition sanitizeDraftResponse :: "jsval \<Rightarrow> string option \<Rightarrow> string" where
  "sanitizeDraftResponse draft userId =
     trim
       (replace_all spaces_pattern '' ''
          (replace_all order_hex_pattern ''order''
             (replace_all hex32_pattern ''your order''
                (replace_all uuid_pattern ''your order''
                   (replace_all user_id_pattern (displayName userId) (draft_base draft))))))"

definition normalizeReportForUi :: "jsobj \<Rightarrow> string option \<Rightarrow> jsobj" where
  "normalizeReportForUi rawReport userId =
     rawReport
       (''credit_recommendation'' \<mapsto>
          normalizeRecommendation (get_prop rawReport ''credit_recommendation''),
        ''refund_recommendation'' \<mapsto>
          normalizeRecommendation (get_prop rawReport ''refund_recommendation''),
        ''draft_response'' \<mapsto>
          JStr (sanitizeDraftResponse (get_prop rawReport ''draft_response'') userId))"

subsection \<open>Reading the patterns\<close>

text \<open>
  Notions used to state and prove what the replacements do.  \<open>run cl s\<close> is the length of
  the longest prefix of \<open>s\<close> in the class \<open>cl\<close>; \<open>take_count\<close> is the number of characters
  a greedy quantifier takes first; \<open>prev_after prev s k\<close> is the character before the rest
  of \<open>s\<close> once \<open>k\<close> characters are taken.
\<close>

definition run :: "(char \<Rightarrow> bool) \<Rightarrow> string \<Rightarrow> nat" where
  "run cl s = length (takeWhile cl s)"

definition prev_after :: "char option \<Rightarrow> string \<Rightarrow> nat \<Rightarrow> char option" where
  "prev_after prev s k = (if k = 0 then prev else Some (s ! (k - 1)))"

definition take_count :: "(char \<Rightarrow> bool) \<Rightarrow> nat option \<Rightarrow> string \<Rightarrow> nat" where
  "take_count cl hi s = (case hi of None \<Rightarrow> run cl s | Some h \<Rightarrow> min h (run cl s))"

text \<open>
  The shape of a match that ends at a word boundary, read one character at a time:
  \<open>follows cls tc s\<close> holds when \<open>s\<close> starts with one character of each class of \<open>cls\<close>
  in turn, then any number of characters of the class \<open>tc\<close>, and then ends or goes on with
  a character that is no word character.
\<close>

fun run_end :: "(char \<Rightarrow> bool) \<Rightarrow> string \<Rightarrow> bool" where
  "run_end tc [] = True"
| "run_end tc (c # cs) = (if tc c then run_end tc cs else \<not> is_word c)"

fun follows :: "(char \<Rightarrow> bool) list \<Rightarrow> (char \<Rightarrow> bool) \<Rightarrow> string \<Rightarrow> bool" where
  "follows [] tc s = run_end tc s"
| "follows (cl # cls) tc [] = False"
| "follows (cl # cls) tc (c # cs) = (cl c \<and> follows cls tc cs)"

definition none :: "char \<Rightarrow> bool" where
  "none c = False"

text \<open>The classes of \<^verbatim>\<open>user-\d\<close> and of the UUID pattern, one for each character.\<close>

definition user_id_classes :: "(char \<Rightarrow> bool) list" where
  "user_id_classes = [ci CHR ''u'' CHR ''U'', ci CHR ''s'' CHR ''S'', ci CHR ''e'' CHR ''E'',
     ci CHR ''r'' CHR ''R'', dash, is_digit]"

definition uuid_classes :: "(char \<Rightarrow> bool) list" where
  "uuid_classes =
     replicate 8 is_hex @ dash # replicate 4 is_hex @ dash
     # (\<lambda>c. CHR ''1'' \<le> c \<and> c \<le> CHR ''5'') # replicate 3 is_hex @ dash
     # (\<lambda>c. c = CHR ''8'' \<or> c = CHR ''9'' \<or> c = CHR ''a'' \<or> c = CHR ''b''
                \<or> c = CHR ''A'' \<or> c = CHR ''B'')
     # replicate 3 is_hex @ dash # replicate 12 is_hex"

text \<open>
  What \<^verbatim>\<open>\s+[0-9a-f]{8,}\b\<close> matches behind the word \<^verbatim>\<open>order\<close>: the length of the white
  space and of the hexadecimal digits.
\<close>

definition order_tail :: "string \<Rightarrow> nat option" where
  "order_tail rest =
     (let w = run is_space rest; h = run is_hex (drop w rest)
      in if 1 \<le> w \<and> 8 \<le> h \<and> \<not> word_next (drop h (drop w rest)) then Some (w + h) else None)"

text \<open>
  \<^verbatim>\<open>/p/.test(s)\<close>: the pattern matches at some position of \<open>s\<close>.  \<open>occurs_from p prev s\<close>
  looks at the positions of \<open>s\<close>, the character before \<open>s\<close> being \<open>prev\<close>.
\<close>

fun occurs_from :: "atom list \<Rightarrow> char option \<Rightarrow> string \<Rightarrow> bool" where
  "occurs_from p prev [] = (match_at p prev [] \<noteq> None)"
| "occurs_from p prev (c # cs) = (match_at p prev (c # cs) \<noteq> None \<or> occurs_from p (Some c) cs)"

definition occurs :: "atom list \<Rightarrow> string \<Rightarrow> bool" where
  "occurs p s = occurs_from p None s"

text \<open>
  A shape starts at a word boundary somewhere in \<open>s\<close>; \<open>pw\<close> tells whether the character
  before \<open>s\<close> is a word character.
\<close>

fun occ :: "(char \<Rightarrow> bool) list \<Rightarrow> (char \<Rightarrow> bool) \<Rightarrow> bool \<Rightarrow> string \<Rightarrow> bool" where
  "occ cls tc pw [] = (\<not> pw \<and> follows cls tc [])"
| "occ cls tc pw (c # cs) = ((\<not> pw \<and> follows cls tc (c # cs)) \<or> occ cls tc (is_word c) cs)"

text \<open>
  Classes that reject the characters the later replacements bring in: the first letters
  of \<^verbatim>\<open>your order\<close> and of \<^verbatim>\<open>order\<close>, and white space.
\<close>

definition plain :: "(char \<Rightarrow> bool) list \<Rightarrow> (char \<Rightarrow> bool) \<Rightarrow> bool" where
  "plain cls tc =
     (cls \<noteq> [] \<and> (\<forall>cl \<in> set (tc # cls).
         \<not> cl CHR ''y'' \<and> \<not> cl CHR ''o'' \<and> (\<forall>c. is_space c \<longrightarrow> \<not> cl c)))"






section \<open>Properties of the status and next-action derivation\<close>

lemma string_or_null_eq: "(string_or_null v = Some s) = (v = JStr s)"
  by (cases v) auto

lemma is_true_eq: "is_true v = (v = JBool True)"
  by (cases v) auto

text \<open>
  Claim C1.  \<^verbatim>\<open>deriveCaseStatus\<close> evaluates its rules in priority order, for every six
  inputs: a stored status equal to \<^verbatim>\<open>blocked\<close> gives \<open>Blocked\<close>; otherwise a refund flag
  or a credit flag that is \<^verbatim>\<open>true\<close>, or a stored status \<^verbatim>\<open>done\<close>, gives \<open>Done\<close>; otherwise
  a sum of the three counts above zero, or a stored status \<^verbatim>\<open>in_progress\<close>, gives
  \<open>In_progress\<close>; otherwise the result is \<open>Pending\<close>.  The second conjunct is the
  dominance of \<^verbatim>\<open>blocked\<close> over every other input.
\<close>

theorem deriveCaseStatus_priority:
  "deriveCaseStatus status hasRefund hasCredit actionCount replyCount regenCount =
     (if status = JStr ''blocked'' then Blocked
      else if hasRefund = JBool True \<or> hasCredit = JBool True \<or> status = JStr ''done''
        then Done
      else if js_gt (js_add (js_add (Number (coalesce actionCount (JNum (Fin 0))))
                                    (Number (coalesce replyCount (JNum (Fin 0)))))
                            (Number (coalesce regenCount (JNum (Fin 0))))) (Fin 0)
              \<or> status = JStr ''in_progress''
        then In_progress
      else Pending)
   \<and> deriveCaseStatus (JStr ''blocked'') hasRefund hasCredit actionCount replyCount regenCount
       = Blocked"
  by (simp add: deriveCaseStatus_def activityCount_def string_or_null_eq is_true_eq)

theorem deriveCaseStatus_priority_witness:
  "deriveCaseStatus (JStr ''blocked'') (JBool True) (JBool True)
     (JNum (Fin 3)) (JStr ''2'') JNull = Blocked
   \<and> deriveCaseStatus (JStr ''pending'') (JBool False) (JBool True)
     (JNum (Fin 0)) (JNum (Fin 0)) (JNum (Fin 0)) = Done
   \<and> deriveCaseStatus JUndefined (JBool False) (JBool False)
     (JNum (Fin 0)) (JNum (Fin 1)) JUndefined = In_progress
   \<and> deriveCaseStatus JNull (JBool False) (JBool False)
     (JNum (Fin 0)) (JNum (Fin 0)) (JNum (Fin 0)) = Pending"
  using deriveCaseStatus_priority [of "JStr ''blocked''" "JBool True" "JBool True"
          "JNum (Fin 3)" "JStr ''2''" JNull]
        deriveCaseStatus_priority [of "JStr ''pending''" "JBool False" "JBool True"
          "JNum (Fin 0)" "JNum (Fin 0)" "JNum (Fin 0)"]
        deriveCaseStatus_priority [of JUndefined "JBool False" "JBool False"
          "JNum (Fin 0)" "JNum (Fin 1)" JUndefined]
        deriveCaseStatus_priority [of JNull "JBool False" "JBool False"
          "JNum (Fin 0)" "JNum (Fin 0)" "JNum (Fin 0)"]
  by (simp add: coalesce_def to_double_def)

text \<open>
  Claim C2.  \<^verbatim>\<open>deriveNextAction\<close> returns the label of the decision table for every status
  and every combination of the three booleans: \<open>Pending\<close> gives \<^verbatim>\<open>review_report\<close>;
  \<open>Blocked\<close> gives \<^verbatim>\<open>investigate_blocker\<close>; \<open>Done\<close> gives \<^verbatim>\<open>monitor\<close> with a reply and
  \<^verbatim>\<open>send_customer_reply\<close> without; \<open>In_progress\<close> gives
  \<^verbatim>\<open>apply_resolution_or_regenerate\<close> with a reply and neither refund nor credit,
  \<^verbatim>\<open>send_customer_reply\<close> without a reply but with a refund or a credit (three
  combinations), and \<^verbatim>\<open>continue_investigation\<close> on the four combinations left.
\<close>

theorem deriveNextAction_table:
  "deriveNextAction Pending hasReply hasRefund hasCredit = ''review_report''
   \<and> deriveNextAction Blocked hasReply hasRefund hasCredit = ''investigate_blocker''
   \<and> deriveNextAction Done True hasRefund hasCredit = ''monitor''
   \<and> deriveNextAction Done False hasRefund hasCredit = ''send_customer_reply''
   \<and> deriveNextAction In_progress True False False = ''apply_resolution_or_regenerate''
   \<and> deriveNextAction In_progress False True False = ''send_customer_reply''
   \<and> deriveNextAction In_progress False False True = ''send_customer_reply''
   \<and> deriveNextAction In_progress False True True = ''send_customer_reply''
   \<and> deriveNextAction In_progress True True False = ''continue_investigation''
   \<and> deriveNextAction In_progress True False True = ''continue_investigation''
   \<and> deriveNextAction In_progress True True True = ''continue_investigation''
   \<and> deriveNextAction In_progress False False False = ''continue_investigation''"
  by (simp add: deriveNextAction_def)

text \<open>
  Claim C3, as the code has it.  With no operator action, one reply, no regeneration and
  no stored status record, the case status is \<open>In_progress\<close>, \<open>has_reply\<close> is true,
  \<open>has_refund\<close> and \<open>has_credit\<close> are false, and the next action is
  \<^verbatim>\<open>apply_resolution_or_regenerate\<close>: the branch of \<^verbatim>\<open>deriveNextAction\<close> for a reply
  without refund or credit, which is also the fifth row of the decision table.
\<close>

theorem one_reply_next_action:
  "case_status (detail_case_state [] [rp] [] []) = In_progress
   \<and> has_reply (detail_case_state [] [rp] [] [])
   \<and> \<not> has_refund (detail_case_state [] [rp] [] [])
   \<and> \<not> has_credit (detail_case_state [] [rp] [] [])
   \<and> next_action (detail_case_state [] [rp] [] []) = ''apply_resolution_or_regenerate''"
  by (simp add: detail_case_state_def stored_status_def length_num_def deriveCaseStatus_def
      activityCount_def deriveNextAction_def coalesce_def to_double_def)

text \<open>
  The claim as the specification words it fails: on that input the next action is not
  \<^verbatim>\<open>continue_investigation\<close>.
\<close>

theorem one_reply_not_continue_investigation:
  "\<not> (case_status (detail_case_state []
          [\<lparr> rp_created_at = 0, rp_sent_by = None, rp_message_text = Some ''hello'' \<rparr>] [] [])
        = In_progress
      \<and> has_reply (detail_case_state []
          [\<lparr> rp_created_at = 0, rp_sent_by = None, rp_message_text = Some ''hello'' \<rparr>] [] [])
      \<and> \<not> has_refund (detail_case_state []
          [\<lparr> rp_created_at = 0, rp_sent_by = None, rp_message_text = Some ''hello'' \<rparr>] [] [])
      \<and> next_action (detail_case_state []
          [\<lparr> rp_created_at = 0, rp_sent_by = None, rp_message_text = Some ''hello'' \<rparr>] [] [])
        = ''continue_investigation'')"
  by (simp add: detail_case_state_def stored_status_def length_num_def deriveCaseStatus_def
      activityCount_def deriveNextAction_def coalesce_def to_double_def)

section \<open>Properties of the timeline\<close>

lemma set_sort_insert: "set (sort_insert cmp x ys) = insert x (set ys)"
  by (induction ys) auto

lemma sort_insert_descending:
  "descending (map key ys) \<Longrightarrow> descending (map key (sort_insert (\<lambda>a b. key b - key a) x ys))"
proof (induction ys)
  case Nil
  then show ?case by simp
next
  case (Cons y ys)
  show ?case
  proof (cases "key y \<le> (key x :: int)")
    case True
    with Cons.prems show ?thesis
      by (auto simp: list_all_iff)
  next
    case False
    with Cons show ?thesis
      by (auto simp: list_all_iff set_sort_insert)
  qed
qed

text \<open>
  What the sort does establish: the timeline is in descending order of the sort key, the
  event time cut to the whole second.
\<close>

lemma timeline_descending_seconds:
  "descending (map (\<lambda>e. getTime_of_String (event_at e))
     (timeline row regenerations replies actions ratingsRows))"
proof -
  have cmp: "timeline_compare
      = (\<lambda>a b. getTime_of_String (event_at b) - getTime_of_String (event_at a))"
    by (simp add: timeline_compare_def fun_eq_iff)
  have "descending (map (\<lambda>e. getTime_of_String (event_at e)) (js_sort timeline_compare xs))"
    for xs
    unfolding js_sort_def cmp
    by (induction xs) (simp_all add: sort_insert_descending)
  then show ?thesis
    by (simp add: timeline_def)
qed

text \<open>
  Claim C4 at a failing input.  A reply stored at 1100 ms and the \<^verbatim>\<open>send_reply\<close> action
  that \<^verbatim>\<open>POST /replies\<close> stores after it, at 1900 ms, fall into the same second: the
  comparator is 0 on them, the sort keeps the reply first, and the timeline is not in
  descending order of \<open>event_at\<close>.
\<close>

theorem timeline_same_second_not_descending:
  "map event_at
     (timeline \<lparr> ts = 0, report_source = ''sync'' \<rparr> []
        [\<lparr> rp_created_at = 1100, rp_sent_by = None, rp_message_text = Some ''hello'' \<rparr>]
        [\<lparr> ac_action_type = ''send_reply'', ac_created_at = 1900, ac_actor = None,
           ac_amount_usd = JNull, ac_status = JStr ''recorded'' \<rparr>]
        [])
   = [1100, 1900, 0]
   \<and> \<not> descending (map event_at
     (timeline \<lparr> ts = 0, report_source = ''sync'' \<rparr> []
        [\<lparr> rp_created_at = 1100, rp_sent_by = None, rp_message_text = Some ''hello'' \<rparr>]
        [\<lparr> ac_action_type = ''send_reply'', ac_created_at = 1900, ac_actor = None,
           ac_amount_usd = JNull, ac_status = JStr ''recorded'' \<rparr>]
        []))"
  by (simp add: timeline_def js_sort_def timeline_compare_def getTime_of_String_def
      reply_event_def action_event_def)

section \<open>Properties of report parsing\<close>

lemma dom_DEFAULT_REPORT:
  "dom DEFAULT_REPORT =
     {''credit_recommendation'', ''refund_recommendation'', ''draft_response'',
      ''past_interactions_summary'', ''order_details_summary'', ''decision_confidence'',
      ''escalation_flag''}"
  by (auto simp: DEFAULT_REPORT_def)

lemma parseAgentReport_cases:
  "parseAgentReport JSON_parse v = Inr DEFAULT_REPORT
   \<or> (\<exists>w. parseAgentReport JSON_parse v = Inr (DEFAULT_REPORT ++ own_properties w))"
proof (cases v)
  case (JStr s)
  then show ?thesis
    by (cases "JSON_parse s") (auto simp: parseAgentReport_def parseAgentReport_try_def)
next
  case (JObj m)
  then have "parseAgentReport JSON_parse v = Inr (DEFAULT_REPORT ++ own_properties (JObj m))"
    by (simp add: parseAgentReport_def parseAgentReport_try_def)
  then show ?thesis
    by blast
qed (simp_all add: parseAgentReport_def parseAgentReport_try_def)

text \<open>
  Claim C5.  \<^verbatim>\<open>parseAgentReport\<close> never throws: for every parser and every raw value it
  returns a report, and every field of the default report is present in it.  A string
  that the parser rejects, and a value that is undefined, null, a boolean or a number,
  give the default report itself: empty text fields, confidence \<^verbatim>\<open>medium\<close>, escalation
  flag false, and null refund and credit recommendations.
\<close>

theorem parseAgentReport_total:
  "(\<exists>r. parseAgentReport JSON_parse v = Inr r \<and> (\<forall>k \<in> dom DEFAULT_REPORT. k \<in> dom r))
   \<and> (JSON_parse s = Inl e \<longrightarrow> parseAgentReport JSON_parse (JStr s) = Inr DEFAULT_REPORT)
   \<and> parseAgentReport JSON_parse JUndefined = Inr DEFAULT_REPORT
   \<and> parseAgentReport JSON_parse JNull = Inr DEFAULT_REPORT
   \<and> parseAgentReport JSON_parse (JBool b) = Inr DEFAULT_REPORT
   \<and> parseAgentReport JSON_parse (JNum n) = Inr DEFAULT_REPORT
   \<and> get_prop DEFAULT_REPORT ''draft_response'' = JStr ''''
   \<and> get_prop DEFAULT_REPORT ''past_interactions_summary'' = JStr ''''
   \<and> get_prop DEFAULT_REPORT ''order_details_summary'' = JStr ''''
   \<and> get_prop DEFAULT_REPORT ''decision_confidence'' = JStr ''medium''
   \<and> get_prop DEFAULT_REPORT ''escalation_flag'' = JBool False
   \<and> get_prop DEFAULT_REPORT ''refund_recommendation'' = JNull
   \<and> get_prop DEFAULT_REPORT ''credit_recommendation'' = JNull"
proof -
  have total: "\<exists>r. parseAgentReport JSON_parse v = Inr r \<and> (\<forall>k \<in> dom DEFAULT_REPORT. k \<in> dom r)"
    using parseAgentReport_cases [of JSON_parse v] by auto
  have rejected: "JSON_parse s = Inl e \<longrightarrow> parseAgentReport JSON_parse (JStr s) = Inr DEFAULT_REPORT"
    by (simp add: parseAgentReport_def parseAgentReport_try_def)
  have others: "parseAgentReport JSON_parse JUndefined = Inr DEFAULT_REPORT"
    "parseAgentReport JSON_parse JNull = Inr DEFAULT_REPORT"
    "parseAgentReport JSON_parse (JBool b) = Inr DEFAULT_REPORT"
    "parseAgentReport JSON_parse (JNum n) = Inr DEFAULT_REPORT"
    by (simp_all add: parseAgentReport_def parseAgentReport_try_def)
  have fields: "get_prop DEFAULT_REPORT ''draft_response'' = JStr ''''"
    "get_prop DEFAULT_REPORT ''past_interactions_summary'' = JStr ''''"
    "get_prop DEFAULT_REPORT ''order_details_summary'' = JStr ''''"
    "get_prop DEFAULT_REPORT ''decision_confidence'' = JStr ''medium''"
    "get_prop DEFAULT_REPORT ''escalation_flag'' = JBool False"
    "get_prop DEFAULT_REPORT ''refund_recommendation'' = JNull"
    "get_prop DEFAULT_REPORT ''credit_recommendation'' = JNull"
    by (simp_all add: get_prop_def DEFAULT_REPORT_def)
  from total rejected others fields show ?thesis
    by blast
qed

theorem parseAgentReport_total_witness:
  "(\<lambda>s. if s = ''{}'' then Inr (JObj Map.empty) else Inl SyntaxError) ''{oops'' = Inl SyntaxError
   \<and> parseAgentReport (\<lambda>s. if s = ''{}'' then Inr (JObj Map.empty) else Inl SyntaxError)
       (JStr ''{oops'') = Inr DEFAULT_REPORT
   \<and> (\<exists>r. parseAgentReport (\<lambda>s. if s = ''{}'' then Inr (JObj Map.empty) else Inl SyntaxError)
            (JStr ''{}'') = Inr r
          \<and> ''draft_response'' \<in> dom r \<and> ''decision_confidence'' \<in> dom r)"
proof -
  let ?P = "\<lambda>s. if s = ''{}'' then Inr (JObj Map.empty) else Inl SyntaxError"
  have rej: "?P ''{oops'' = Inl SyntaxError"
    by simp
  have keys: "''draft_response'' \<in> dom DEFAULT_REPORT" "''decision_confidence'' \<in> dom DEFAULT_REPORT"
    by (simp_all add: dom_DEFAULT_REPORT)
  from parseAgentReport_total [of ?P "JStr ''{}''" "''{oops''" SyntaxError] rej keys
  show ?thesis
    by blast
qed

section \<open>Properties of the recommendation normalization\<close>

lemma StringToNumber_empty: "StringToNumber '''' = Fin 0"
  by (simp add: StringToNumber_def trim_def)

lemma to_double_small: "\<bar>q\<bar> < 2 ^ 64 \<Longrightarrow> to_double q = Fin q"
proof -
  have "(2::rat) ^ 64 \<le> 2 ^ 1024 - 2 ^ 970"
    by simp
  then show "\<bar>q\<bar> < 2 ^ 64 \<Longrightarrow> to_double q = Fin q"
    by (simp add: to_double_def)
qed

lemma trim_12_50: "trim ''12.50'' = ''12.50''"
  by (simp add: trim_def is_space_def)

lemma StringToNumber_12_50: "StringToNumber ''12.50'' = Fin (25 / 2)"
  by (simp add: StringToNumber_def trim_12_50 StrNumericLiteral_def NonDecimalIntegerLiteral_def
      StrUnsignedDecimalLiteral_def ExponentPart_def is_digit_def digit_of_def pow10_def
      to_double_small Let_def)

lemma trim_na: "trim ''n/a'' = ''n/a''"
  by (simp add: trim_def is_space_def)

lemma StringToNumber_na: "StringToNumber ''n/a'' = NaN"
  by (simp add: StringToNumber_def trim_na StrNumericLiteral_def NonDecimalIntegerLiteral_def
      StrUnsignedDecimalLiteral_def ExponentPart_def is_digit_def digit_of_def Let_def)

lemma trim_space: "trim '' '' = ''''"
  by (simp add: trim_def is_space_def)

lemma trim_goodwill: "trim ''goodwill'' = ''goodwill''"
  by (simp add: trim_def is_space_def)

lemma or_else_find:
  "or_else (f a) (or_else (f b) (or_else (f c) (f d)))
     = (case List.find (\<lambda>x. f x \<noteq> None) [a, b, c, d] of None \<Rightarrow> None | Some x \<Rightarrow> f x)"
  by (auto simp: or_else_def split: option.splits)

lemma amount_first_finite:
  "(case or_else (toNullableNumber a) (or_else (toNullableNumber b)
            (or_else (toNullableNumber c) (toNullableNumber d))) of
      None \<Rightarrow> JNull | Some n \<Rightarrow> JNum n)
   = first_finite [a, b, c, d]"
  unfolding or_else_find first_finite_def
  by (auto split: option.splits)

text \<open>
  Claim C6, as the code has it.  For every recommendation object, the normalized object
  keeps the fields of the input and sets two: \<^verbatim>\<open>amount_usd\<close>, the number of the first
  field among \<^verbatim>\<open>amount_usd\<close>, \<^verbatim>\<open>amount\<close>, \<^verbatim>\<open>credit_amount\<close>, \<^verbatim>\<open>refund_amount\<close> that is a
  finite number or a string whose numeric value is finite, and null when there is none;
  and \<^verbatim>\<open>reason\<close>, the first field among \<^verbatim>\<open>reason\<close>, \<^verbatim>\<open>credit_reason\<close>, \<^verbatim>\<open>refund_reason\<close>
  that is a string with a character other than white space, and otherwise the raw
  \<^verbatim>\<open>reason\<close> field, or the empty string when that is null or undefined.  The payload with
  \<^verbatim>\<open>credit_amount\<close> \<^verbatim>\<open>"12.50"\<close> and \<^verbatim>\<open>credit_reason\<close> \<^verbatim>\<open>"goodwill"\<close> normalizes to the amount 12.5
  and the reason \<^verbatim>\<open>goodwill\<close>.
\<close>

theorem normalizeRecommendation_canonical:
  "normalizeRecommendation (JObj raw) =
     JObj (raw(''amount_usd'' \<mapsto>
                 first_finite (map (get_prop raw)
                   [''amount_usd'', ''amount'', ''credit_amount'', ''refund_amount'']),
               ''reason'' \<mapsto>
                 (case List.find is_reason (map (get_prop raw)
                         [''reason'', ''credit_reason'', ''refund_reason'']) of
                    Some r \<Rightarrow> r
                  | None \<Rightarrow> coalesce (get_prop raw ''reason'') (JStr ''''))))
   \<and> ((\<forall>k \<in> set [''amount_usd'', ''amount'', ''credit_amount'', ''refund_amount''].
          toNullableNumber (get_prop raw k) = None)
        \<longrightarrow> get_prop (own_properties (normalizeRecommendation (JObj raw))) ''amount_usd'' = JNull)
   \<and> normalizeRecommendation
        (JObj [''credit_amount'' \<mapsto> JStr ''12.50'', ''credit_reason'' \<mapsto> JStr ''goodwill''])
      = JObj [''credit_amount'' \<mapsto> JStr ''12.50'', ''credit_reason'' \<mapsto> JStr ''goodwill'',
              ''amount_usd'' \<mapsto> JNum (Fin (25 / 2)), ''reason'' \<mapsto> JStr ''goodwill'']"
proof -
  have shape: "normalizeRecommendation (JObj raw) =
     JObj (raw(''amount_usd'' \<mapsto>
                 first_finite (map (get_prop raw)
                   [''amount_usd'', ''amount'', ''credit_amount'', ''refund_amount'']),
               ''reason'' \<mapsto>
                 (case List.find is_reason (map (get_prop raw)
                         [''reason'', ''credit_reason'', ''refund_reason'']) of
                    Some r \<Rightarrow> r
                  | None \<Rightarrow> coalesce (get_prop raw ''reason'') (JStr ''''))))" for raw
    unfolding normalizeRecommendation_def Let_def amount_first_finite
    by simp
  have absent: "(\<forall>k \<in> set [''amount_usd'', ''amount'', ''credit_amount'', ''refund_amount''].
          toNullableNumber (get_prop raw k) = None)
        \<longrightarrow> get_prop (own_properties (normalizeRecommendation (JObj raw))) ''amount_usd'' = JNull"
    unfolding shape
    by (simp add: get_prop_def first_finite_def)
  have example: "normalizeRecommendation
        (JObj [''credit_amount'' \<mapsto> JStr ''12.50'', ''credit_reason'' \<mapsto> JStr ''goodwill''])
      = JObj [''credit_amount'' \<mapsto> JStr ''12.50'', ''credit_reason'' \<mapsto> JStr ''goodwill'',
              ''amount_usd'' \<mapsto> JNum (Fin (25 / 2)), ''reason'' \<mapsto> JStr ''goodwill'']"
    unfolding shape
    by (simp add: get_prop_def first_finite_def toNullableNumber_def StringToNumber_12_50
        trim_goodwill)
  from shape absent example show ?thesis
    by blast
qed

theorem normalizeRecommendation_canonical_witness:
  "toNullableNumber (get_prop [''amount'' \<mapsto> JStr ''n/a'', ''reason'' \<mapsto> JStr ''late''] ''amount_usd'') = None
   \<and> toNullableNumber (get_prop [''amount'' \<mapsto> JStr ''n/a'', ''reason'' \<mapsto> JStr ''late''] ''amount'') = None
   \<and> toNullableNumber (get_prop [''amount'' \<mapsto> JStr ''n/a'', ''reason'' \<mapsto> JStr ''late''] ''credit_amount'') = None
   \<and> toNullableNumber (get_prop [''amount'' \<mapsto> JStr ''n/a'', ''reason'' \<mapsto> JStr ''late''] ''refund_amount'') = None
   \<and> get_prop (own_properties (normalizeRecommendation
        (JObj [''amount'' \<mapsto> JStr ''n/a'', ''reason'' \<mapsto> JStr ''late'']))) ''amount_usd'' = JNull"
proof -
  let ?raw = "[''amount'' \<mapsto> JStr ''n/a'', ''reason'' \<mapsto> JStr ''late'']"
  note nan = StringToNumber_na
  have none: "toNullableNumber (get_prop ?raw ''amount_usd'') = None"
    "toNullableNumber (get_prop ?raw ''amount'') = None"
    "toNullableNumber (get_prop ?raw ''credit_amount'') = None"
    "toNullableNumber (get_prop ?raw ''refund_amount'') = None"
    by (simp_all add: get_prop_def toNullableNumber_def nan)
  then have "\<forall>k \<in> set [''amount_usd'', ''amount'', ''credit_amount'', ''refund_amount''].
      toNullableNumber (get_prop ?raw k) = None"
    by simp
  with normalizeRecommendation_canonical [of ?raw] none
  show ?thesis
    by blast
qed

text \<open>
  The claim as worded, with the reason taken from the first non-empty string, fails on
  the object with a \<^verbatim>\<open>reason\<close> of one space and a \<^verbatim>\<open>credit_reason\<close> \<^verbatim>\<open>"goodwill"\<close>: the first
  non-empty string among the candidates is the space, and the normalized reason is
  \<^verbatim>\<open>goodwill\<close>.
\<close>

theorem normalizeRecommendation_blank_reason:
  "first_nonempty_string (map (get_prop [''reason'' \<mapsto> JStr '' '', ''credit_reason'' \<mapsto> JStr ''goodwill''])
       [''reason'', ''credit_reason'', ''refund_reason''])
     = Some (JStr '' '')
   \<and> get_prop (own_properties (normalizeRecommendation
        (JObj [''reason'' \<mapsto> JStr '' '', ''credit_reason'' \<mapsto> JStr ''goodwill''])))
        ''reason'' = JStr ''goodwill''
   \<and> Some (get_prop (own_properties (normalizeRecommendation
        (JObj [''reason'' \<mapsto> JStr '' '', ''credit_reason'' \<mapsto> JStr ''goodwill''])))
        ''reason'')
     \<noteq> first_nonempty_string
         (map (get_prop [''reason'' \<mapsto> JStr '' '', ''credit_reason'' \<mapsto> JStr ''goodwill''])
            [''reason'', ''credit_reason'', ''refund_reason''])"
  by (simp add: normalizeRecommendation_def first_nonempty_string_def get_prop_def
      trim_space trim_goodwill)

text \<open>
  Claim C10.  Numeric coercion maps the empty string to the finite number 0, so a
  recommendation object whose \<^verbatim>\<open>amount_usd\<close>, the candidate of highest priority, is the
  empty string normalizes to the amount 0 and not to null.
\<close>

theorem normalizeRecommendation_empty_amount:
  "raw ''amount_usd'' = Some (JStr '''')
   \<Longrightarrow> toNullableNumber (JStr '''') = Some (Fin 0)
       \<and> get_prop (own_properties (normalizeRecommendation (JObj raw))) ''amount_usd''
           = JNum (Fin 0)"
  by (simp add: normalizeRecommendation_def get_prop_def toNullableNumber_def
      StringToNumber_empty or_else_def)

theorem normalizeRecommendation_empty_amount_witness:
  "[''amount_usd'' \<mapsto> JStr ''''] ''amount_usd'' = Some (JStr '''')
   \<and> get_prop (own_properties (normalizeRecommendation (JObj [''amount_usd'' \<mapsto> JStr ''''])))
        ''amount_usd'' = JNum (Fin 0)"
  using normalizeRecommendation_empty_amount [of "[''amount_usd'' \<mapsto> JStr '''']"]
  by simp

section \<open>Properties of the credential cache\<close>

lemma getToken_in_flight:
  "cached s = None \<Longrightarrow> refreshPromise s = Some p \<Longrightarrow> getToken now s = (Refresh p, s)"
  by (simp add: getToken_def fresh_def)

lemma getToken_calls_in_flight:
  "cached s = None \<Longrightarrow> refreshPromise s = Some p
   \<Longrightarrow> getToken_calls nows s = (replicate (length nows) (Refresh p), s)"
  by (induction nows) (simp_all add: getToken_in_flight)

lemma getToken_first:
  "cached s = None \<Longrightarrow> refreshPromise s = None
   \<Longrightarrow> getToken now s
       = (Refresh (fetches s),
          s\<lparr> refreshPromise := Some (fetches s), fetches := Suc (fetches s) \<rparr>)"
  by (simp add: getToken_def fresh_def)

text \<open>
  Claim C9.  Take any calls of the closure issued while no cached entry exists and before
  a refresh settles, the first of them finding no refresh in flight.  Then
  \<^verbatim>\<open>fetchOAuthToken\<close> is called exactly once; every caller holds the same promise, that of
  this one fetch, so that all of them receive its token once it settles; and a call made
  while the refresh is in flight returns that promise and leaves the state, the count of
  fetches with it, as it was.
\<close>

theorem getToken_single_flight:
  assumes "cached s = None" and "refreshPromise s = None" and "nows \<noteq> []"
  shows "fetches (snd (getToken_calls nows s)) = fetches s + 1
    \<and> fst (getToken_calls nows s) = replicate (length nows) (Refresh (fetches s))
    \<and> (outcomes (fetches s) = Inr result
        \<longrightarrow> map (received outcomes) (fst (getToken_calls nows s))
            = replicate (length nows) (Inr (token result)))
    \<and> getToken now (snd (getToken_calls nows s))
        = (Refresh (fetches s), snd (getToken_calls nows s))"
proof -
  from assms(3) obtain n ns where nows: "nows = n # ns"
    by (cases nows) auto
  let ?s1 = "s\<lparr> refreshPromise := Some (fetches s), fetches := Suc (fetches s) \<rparr>"
  have first: "getToken n s = (Refresh (fetches s), ?s1)"
    using assms(1,2) by (rule getToken_first)
  have s1: "cached ?s1 = None" "refreshPromise ?s1 = Some (fetches s)"
    using assms(1) by simp_all
  have rest: "getToken_calls ns ?s1 = (replicate (length ns) (Refresh (fetches s)), ?s1)"
    using s1 by (rule getToken_calls_in_flight)
  have all: "getToken_calls nows s = (replicate (length nows) (Refresh (fetches s)), ?s1)"
    by (simp add: nows first rest)
  have again: "getToken now ?s1 = (Refresh (fetches s), ?s1)"
    using s1 by (rule getToken_in_flight)
  show ?thesis
    unfolding all using again
    by (simp add: received_def)
qed

theorem getToken_single_flight_witness:
  "fetches (snd (getToken_calls [5, 5, 7]
      \<lparr> cached = None, refreshPromise = None, fetches = 0 \<rparr>)) = 1
   \<and> fst (getToken_calls [5, 5, 7] \<lparr> cached = None, refreshPromise = None, fetches = 0 \<rparr>)
       = [Refresh 0, Refresh 0, Refresh 0]
   \<and> map (received (\<lambda>p. Inr \<lparr> token = ''t0'', expiresAt = Some 900000 \<rparr>))
        (fst (getToken_calls [5, 5, 7] \<lparr> cached = None, refreshPromise = None, fetches = 0 \<rparr>))
       = [Inr ''t0'', Inr ''t0'', Inr ''t0'']"
proof -
  let ?s = "\<lparr> cached = None, refreshPromise = None, fetches = 0 \<rparr>"
  let ?r = "\<lparr> token = ''t0'', expiresAt = Some 900000 \<rparr>"
  have h: "cached ?s = None" "refreshPromise ?s = None" "[5, 5, 7] \<noteq> ([] :: int list)"
    by simp_all
  from getToken_single_flight [OF h, of "\<lambda>p. Inr ?r" ?r 0]
  show ?thesis
    by (simp add: numeral_3_eq_3 received_def del: getToken_calls.simps)
qed

section \<open>The regular expression matcher on the patterns of the sanitizer\<close>

lemma try_counts_det:
  "(\<And>k. lo \<le> k \<Longrightarrow> k < n \<Longrightarrow> f k = None)
   \<Longrightarrow> try_counts lo n f = (if lo \<le> n then f n else None)"
proof (induction n)
  case 0
  then show ?case by simp
next
  case (Suc n)
  have below: "try_counts lo n f = None"
  proof (cases "lo \<le> n")
    case True
    with Suc show ?thesis by simp
  next
    case False
    with Suc show ?thesis by simp
  qed
  show ?case
    by (cases "f (Suc n)") (auto simp: below)
qed

lemma match_at_Chars_det:
  assumes "\<And>k. lo \<le> k \<Longrightarrow> k < take_count cl hi s
             \<Longrightarrow> match_at p (prev_after prev s k) (drop k s) = None"
  shows "match_at (Chars cl lo hi # p) prev s =
     (if lo \<le> take_count cl hi s
      then map_option (\<lambda>r. take_count cl hi s + r)
             (match_at p (prev_after prev s (take_count cl hi s)) (drop (take_count cl hi s) s))
      else None)"
proof -
  let ?f = "\<lambda>k. map_option (\<lambda>r. k + r) (match_at p (prev_after prev s k) (drop k s))"
  have unfold: "match_at (Chars cl lo hi # p) prev s = try_counts lo (take_count cl hi s) ?f"
    by (cases hi) (simp_all add: Let_def run_def prev_after_def take_count_def)
  have "try_counts lo (take_count cl hi s) ?f = (if lo \<le> take_count cl hi s then ?f (take_count cl hi s) else None)"
    by (rule try_counts_det) (simp add: assms)
  with unfold show ?thesis
    by simp
qed

lemma match_at_exactly:
  "match_at (exactly m cl # p) prev s =
     (if m \<le> run cl s then map_option (\<lambda>r. m + r) (match_at p (prev_after prev s m) (drop m s))
      else None)"
  unfolding exactly_def
  by (subst match_at_Chars_det) (auto simp: take_count_def min_def split: if_splits)

lemma run_Cons: "run cl (c # cs) = (if cl c then Suc (run cl cs) else 0)"
  by (simp add: run_def)

lemma run_Nil: "run cl [] = 0"
  by (simp add: run_def)

lemma match_at_one:
  "match_at (one cl # p) prev s =
     (case s of [] \<Rightarrow> None
      | c # cs \<Rightarrow> if cl c then map_option Suc (match_at p (Some c) cs) else None)"
  unfolding one_def
  by (subst match_at_Chars_det)
     (auto simp: take_count_def min_def run_Cons run_Nil prev_after_def option.map_ident
           intro!: option.map_cong split: list.splits if_splits)

lemma try_counts_top: "lo \<le> n \<Longrightarrow> f n = Some r \<Longrightarrow> try_counts lo n f = Some r"
  by (cases n) auto

lemma try_counts_below: "n < lo \<Longrightarrow> try_counts lo n f = None"
  by (cases n) auto

lemma run_nth: "k < run cl s \<Longrightarrow> cl (s ! k)"
  unfolding run_def
  by (metis nth_mem set_takeWhileD takeWhile_nth)

lemma run_le_length: "run cl s \<le> length s"
  unfolding run_def by (rule length_takeWhile_le)

lemma word_next_drop: "k < length s \<Longrightarrow> word_next (drop k s) = is_word (s ! k)"
  by (simp add: word_next_def Cons_nth_drop_Suc [symmetric])

lemma word_next_run:
  "(\<And>c. cl c \<Longrightarrow> is_word c) \<Longrightarrow> k < run cl s \<Longrightarrow> word_next (drop k s)"
  using run_le_length [of cl s] by (simp add: word_next_drop run_nth)

lemma run_drop_run: "run cl (drop (run cl s) s) = 0"
  unfolding run_def
  by (induction s) auto

lemma run_zero_iff: "(run cl s = 0) = (case s of [] \<Rightarrow> True | c # _ \<Rightarrow> \<not> cl c)"
  by (cases s) (auto simp: run_def)

lemma run_end_iff: "run_end tc s = (\<not> word_next (drop (run tc s) s))"
  by (induction s) (auto simp: run_Cons run_Nil word_next_def)

lemma follows_replicate:
  "follows (replicate n cl @ cls) tc s = (n \<le> run cl s \<and> follows cls tc (drop n s))"
proof (induction n arbitrary: s)
  case 0
  then show ?case by simp
next
  case (Suc n)
  show ?case
  proof (cases s)
    case Nil
    then show ?thesis by (simp add: run_Nil)
  next
    case (Cons c cs)
    with Suc show ?thesis by (auto simp: run_Cons)
  qed
qed

lemma match_at_at_least_boundary:
  assumes word: "\<And>c. cl c \<Longrightarrow> is_word c" and lo: "0 < lo"
  shows "match_at (at_least lo cl # Boundary # p) prev s =
     (if lo \<le> run cl s \<and> \<not> word_next (drop (run cl s) s)
      then map_option (\<lambda>r. run cl s + r) (match_at p (Some (s ! (run cl s - 1))) (drop (run cl s) s))
      else None)"
proof -
  have fail: "match_at (Boundary # p) (prev_after prev s k) (drop k s) = None"
    if "lo \<le> k" "k < run cl s" for k
  proof -
    from that lo have k: "0 < k" "k - 1 < run cl s" by auto
    have "word_next (drop k s)"
      using word that(2) by (rule word_next_run)
    moreover have "is_word (s ! (k - 1))"
      using k(2) by (auto intro: word run_nth)
    ultimately show ?thesis
      using k(1) by (simp add: boundary_def prev_after_def word_before_def)
  qed
  have last: "is_word (s ! (run cl s - 1))" if "lo \<le> run cl s"
    using that lo by (auto intro!: word run_nth [of _ cl])
  show ?thesis
    unfolding at_least_def
    apply (subst match_at_Chars_det)
    using fail apply (simp add: take_count_def)
    using lo last
    apply (auto simp: take_count_def prev_after_def boundary_def word_before_def)
    done
qed

lemma match_at_at_least_disjoint:
  assumes disj: "\<And>c. cl c \<Longrightarrow> \<not> cl' c" and lo: "0 < lo'"
  shows "match_at (at_least lo cl # Chars cl' lo' hi' # p) prev s =
     (if lo \<le> run cl s
      then map_option (\<lambda>r. run cl s + r)
             (match_at (Chars cl' lo' hi' # p) (prev_after prev s (run cl s)) (drop (run cl s) s))
      else None)"
proof -
  have fail: "match_at (Chars cl' lo' hi' # p) (prev_after prev s k) (drop k s) = None"
    if "k < run cl s" for k
  proof -
    from that run_le_length [of cl s] have "k < length s" by simp
    then have d: "drop k s = s ! k # drop (Suc k) s"
      by (simp add: Cons_nth_drop_Suc)
    have "cl (s ! k)" using that by (rule run_nth)
    then have "takeWhile cl' (drop k s) = []"
      using disj d by simp
    then show ?thesis
      using lo by (cases hi') (simp_all add: try_counts_below)
  qed
  show ?thesis
    unfolding at_least_def
    by (subst match_at_Chars_det) (use fail in \<open>simp_all add: take_count_def\<close>)
qed

lemma match_at_Boundary:
  "match_at (Boundary # p) prev s = (if boundary prev s then match_at p prev s else None)"
  by simp

lemma match_at_Nil: "match_at [] prev s = Some 0"
  by simp

declare match_at.simps [simp del]

lemma is_digit_word: "is_digit c \<Longrightarrow> is_word c"
  by (simp add: is_word_def)

lemma is_hex_word: "is_hex c \<Longrightarrow> is_word c"
  by (auto simp: is_word_def is_hex_def is_digit_def less_eq_char_def)

lemma is_space_not_word: "is_space c \<Longrightarrow> \<not> is_word c"
  by (auto simp: is_word_def is_space_def is_digit_def less_eq_char_def)

lemma is_space_not_hex: "is_space c \<Longrightarrow> \<not> is_hex c"
  by (auto simp: is_hex_def is_space_def is_digit_def less_eq_char_def)

lemma run_none: "run none s = 0"
  by (cases s) (simp_all add: run_def none_def)

lemma match_spaces:
  "match_at spaces_pattern prev s = (if 2 \<le> run is_space s then Some (run is_space s) else None)"
  by (simp add: spaces_pattern_def at_least_def run_def try_counts_top try_counts_below
      match_at.simps)

lemma follows_word_next:
  "follows (cl # cls) tc s \<Longrightarrow> (\<And>c. cl c \<Longrightarrow> is_word c) \<Longrightarrow> word_next s"
  by (cases s) (auto simp: word_next_def)

lemma match_hex32:
  "match_at hex32_pattern prev s =
     (if \<not> word_before prev \<and> follows (replicate 32 is_hex) none s then Some 32 else None)"
proof -
  have f: "follows (replicate 32 is_hex) none s = (32 \<le> run is_hex s \<and> \<not> word_next (drop 32 s))"
    using follows_replicate [of 32 is_hex "[]" none s]
    by (simp add: run_end_iff run_none)
  have w: "word_next s" "is_word (s ! 31)" if "32 \<le> run is_hex s"
  proof -
    from that have "0 < run is_hex s" "31 < run is_hex s" by simp_all
    then show "word_next s" "is_word (s ! 31)"
      using word_next_run [of is_hex 0 s] run_nth [of 31 is_hex s] by (simp_all add: is_hex_word)
  qed
  show ?thesis
    unfolding f hex32_pattern_def
    using w
    by (auto simp del: match_at.simps
        simp add: match_at_Boundary match_at_exactly match_at_Nil boundary_def prev_after_def
          word_before_def)
qed

lemma ci_word: "ci CHR ''u'' CHR ''U'' c \<Longrightarrow> is_word c" "ci CHR ''o'' CHR ''O'' c \<Longrightarrow> is_word c"
  by (auto simp: ci_def is_word_def is_digit_def less_eq_char_def)

lemma follows_digits:
  "follows [is_digit] is_digit s = (1 \<le> run is_digit s \<and> \<not> word_next (drop (run is_digit s) s))"
  by (cases s) (auto simp: run_Cons run_Nil run_end_iff)

lemma match_user_id:
  "match_at user_id_pattern prev s =
     (if \<not> word_before prev \<and> follows user_id_classes is_digit s
      then Some (5 + run is_digit (drop 5 s)) else None)"
proof (cases "\<exists>c1 c2 c3 c4 c5 rest. s = c1 # c2 # c3 # c4 # c5 # rest")
  case True
  then obtain c1 c2 c3 c4 c5 rest where s: "s = c1 # c2 # c3 # c4 # c5 # rest"
    by blast
  show ?thesis
    unfolding user_id_pattern_def user_id_classes_def s
    using follows_digits [of rest] ci_word(1) [of c1]
    by (auto simp del: match_at.simps
        simp add: match_at_Boundary match_at_one match_at_at_least_boundary is_digit_word
          match_at_Nil boundary_def word_next_def)
next
  case False
  then have "\<not> follows user_id_classes is_digit s"
    unfolding user_id_classes_def
    by (auto simp: neq_Nil_conv elim!: follows.elims)
  moreover from False have "match_at user_id_pattern prev s = None"
    unfolding user_id_pattern_def
    by (auto simp del: match_at.simps
        simp add: match_at_Boundary match_at_one split: list.splits)
  ultimately show ?thesis
    by simp
qed

lemmas match_at_at_least_at_least =
  match_at_at_least_disjoint [where hi' = None, folded at_least_def]

lemma match_order_hex:
  "match_at order_hex_pattern prev s =
     (case s of
        c1 # c2 # c3 # c4 # c5 # rest \<Rightarrow>
          if \<not> word_before prev \<and> ci CHR ''o'' CHR ''O'' c1 \<and> ci CHR ''r'' CHR ''R'' c2
             \<and> ci CHR ''d'' CHR ''D'' c3 \<and> ci CHR ''e'' CHR ''E'' c4 \<and> ci CHR ''r'' CHR ''R'' c5
          then map_option (\<lambda>n. 5 + n) (order_tail rest)
          else None
      | _ \<Rightarrow> None)"
proof -
  have tail: "match_at [at_least 1 is_space, at_least 8 is_hex, Boundary] q rest = order_tail rest"
    for q rest
    by (simp del: match_at.simps
        add: match_at_at_least_at_least is_space_not_hex match_at_at_least_boundary is_hex_word
          match_at_Nil order_tail_def Let_def)
  show ?thesis
    unfolding order_hex_pattern_def
    using ci_word(2)
    by (auto simp del: match_at.simps One_nat_def
        simp add: match_at_Boundary match_at_one tail boundary_def word_next_def
          option.map_comp comp_def
        split: list.splits intro!: option.map_cong)
qed

lemma match_at_exactly_last:
  assumes word: "\<And>c. cl c \<Longrightarrow> is_word c" and n: "0 < n"
  shows "match_at [exactly n cl, Boundary] prev s =
     (if n \<le> run cl s \<and> \<not> word_next (drop n s) then Some n else None)"
proof -
  have "is_word (s ! (n - 1))" if "n \<le> run cl s"
    using that n by (auto intro!: word run_nth [of _ cl])
  then show ?thesis
    using n
    by (auto simp del: match_at.simps
        simp add: match_at_exactly match_at_Boundary match_at_Nil prev_after_def boundary_def
          word_before_def)
qed

lemma match_at_exactly_pos:
  "0 < m \<Longrightarrow> match_at (exactly m cl # one cl' # p) prev s =
     (if m \<le> run cl s then map_option (\<lambda>r. m + r) (match_at (one cl' # p) None (drop m s))
      else None)"
  by (simp del: match_at.simps add: match_at_exactly match_at_one)

lemma follows_Cons:
  "follows (cl # cls) tc s = (case s of [] \<Rightarrow> False | c # cs \<Rightarrow> cl c \<and> follows cls tc cs)"
  by (cases s) simp_all

lemma follows_replicate_end:
  "follows (replicate n cl) none s = (n \<le> run cl s \<and> \<not> word_next (drop n s))"
  using follows_replicate [of n cl "[]" none s]
  by (simp add: run_end_iff run_none)

lemma match_uuid:
  "match_at uuid_pattern prev s =
     (if \<not> word_before prev \<and> follows uuid_classes none s then Some 36 else None)"
proof -
  have w: "word_next s" if "8 \<le> run is_hex s"
    using that word_next_run [of is_hex 0 s] by (simp add: is_hex_word)
  show ?thesis
    unfolding uuid_pattern_def uuid_classes_def
    using w
    by (auto simp del: match_at.simps follows.simps
        simp add: match_at_Boundary match_at_exactly_pos match_at_one
          match_at_exactly_last is_hex_word follows_replicate follows_replicate_end follows_Cons
          boundary_def
        split: list.splits)
qed

lemma hex32_classes: "replicate 32 is_hex =
  [is_hex, is_hex, is_hex, is_hex, is_hex, is_hex, is_hex, is_hex,
   is_hex, is_hex, is_hex, is_hex, is_hex, is_hex, is_hex, is_hex,
   is_hex, is_hex, is_hex, is_hex, is_hex, is_hex, is_hex, is_hex,
   is_hex, is_hex, is_hex, is_hex, is_hex, is_hex, is_hex, is_hex]"
  by (simp add: eval_nat_numeral)

lemma uuid_classes_list: "uuid_classes =
  [is_hex, is_hex, is_hex, is_hex, is_hex, is_hex, is_hex, is_hex, dash,
   is_hex, is_hex, is_hex, is_hex, dash,
   (\<lambda>c. CHR ''1'' \<le> c \<and> c \<le> CHR ''5''), is_hex, is_hex, is_hex, dash,
   (\<lambda>c. c = CHR ''8'' \<or> c = CHR ''9'' \<or> c = CHR ''a'' \<or> c = CHR ''b''
                \<or> c = CHR ''A'' \<or> c = CHR ''B''), is_hex, is_hex, is_hex, dash,
   is_hex, is_hex, is_hex, is_hex, is_hex, is_hex, is_hex, is_hex, is_hex, is_hex, is_hex, is_hex]"
  by (simp add: uuid_classes_def eval_nat_numeral)

lemmas match_simps = match_spaces match_hex32 match_user_id match_order_hex match_uuid
  user_id_classes_def uuid_classes_list hex32_classes order_tail_def run_Cons run_Nil
  word_before_def
  word_next_def is_hex_def is_digit_def is_space_def is_word_def ci_def dash_def none_def
  less_eq_char_def

lemma occurs_from_occ:
  assumes "\<And>prev s. (match_at T prev s \<noteq> None) = (\<not> word_before prev \<and> follows cls tc s)"
  shows "occurs_from T prev s = occ cls tc (word_before prev) s"
proof (induction s arbitrary: prev)
  case Nil
  show ?case
    unfolding occurs_from.simps occ.simps assms by simp
next
  case (Cons c cs)
  show ?case
    unfolding occurs_from.simps occ.simps assms Cons.IH by (simp add: word_before_def)
qed

lemma occ_mono: "occ cls tc True s \<Longrightarrow> occ cls tc pw s"
  by (cases s) auto

lemma follows_transfer:
  assumes nonempty: "\<And>prev. match_at Q prev [] = None" "\<And>prev s. match_at Q prev s \<noteq> Some 0"
    and rho: "rho \<noteq> []"
    and reject: "\<not> tc (hd rho)" "\<forall>cl \<in> set cls. \<not> cl (hd rho)"
    and start: "is_word (hd rho) \<or> (\<forall>prev c cs. match_at Q prev (c # cs) \<noteq> None \<longrightarrow> \<not> is_word c \<and> \<not> tc c)"
  shows "follows cls tc (replace_from Q rho prev s) \<Longrightarrow> follows cls tc s"
  using reject(2)
proof (induction s arbitrary: cls prev)
  case Nil
  then show ?case by (simp add: nonempty)
next
  case (Cons c cs)
  from rho obtain r rs where r: "rho = r # rs" by (cases rho) auto
  show ?case
  proof (cases "match_at Q prev (c # cs)")
    case None
    then have out: "replace_from Q rho prev (c # cs) = c # replace_from Q rho (Some c) cs"
      by simp
    show ?thesis
    proof (cases cls)
      case Nil
      with Cons.prems(1) out Cons.IH [of "[]" "Some c"] show ?thesis
        by (auto split: if_splits)
    next
      case (Cons cl cls')
      with Cons.prems out Cons.IH [of cls' "Some c"] show ?thesis
        by auto
    qed
  next
    case (Some n)
    with nonempty(2) [of prev "c # cs"] obtain m where n: "n = Suc m"
      by (cases n) auto
    with Some have out: "replace_from Q rho prev (c # cs)
        = r # rs @ replace_from Q rho (Some ((c # cs) ! m)) (drop m cs)"
      by (simp add: r)
    show ?thesis
    proof (cases cls)
      case Nil
      with Cons.prems(1) out reject(1) r have "\<not> is_word r"
        by (auto split: if_splits)
      with start r Some have "\<not> is_word c \<and> \<not> tc c"
        by auto
      with Nil show ?thesis by simp
    next
      case (Cons cl cls')
      with Cons.prems out r show ?thesis
        by auto
    qed
  qed
qed

lemma occ_drop:
  "\<not> occ cls tc pw s \<Longrightarrow> k < length s \<Longrightarrow> \<not> occ cls tc (is_word (s ! k)) (drop (Suc k) s)"
proof (induction s arbitrary: pw k)
  case Nil
  then show ?case by simp
next
  case (Cons c cs)
  show ?case
  proof (cases k)
    case 0
    with Cons.prems show ?thesis by simp
  next
    case (Suc j)
    with Cons.prems Cons.IH [of "is_word c" j] show ?thesis by simp
  qed
qed

lemma occ_Nil: "cls \<noteq> [] \<Longrightarrow> \<not> occ cls tc pw []"
  by (cases cls) simp_all

lemma occ_preserved:
  assumes cls: "cls \<noteq> []" and nonempty: "\<And>prev. match_at Q prev [] = None" "\<And>prev s. match_at Q prev s \<noteq> Some 0"
    and rho: "rho \<noteq> []"
    and reject: "\<not> tc (hd rho)" "\<forall>cl \<in> set cls. \<not> cl (hd rho)"
    and start: "is_word (hd rho) \<or> (\<forall>prev c cs. match_at Q prev (c # cs) \<noteq> None \<longrightarrow> \<not> is_word c \<and> \<not> tc c)"
    and inside: "\<And>pw t. occ cls tc pw (rho @ t) \<Longrightarrow> (\<not> pw \<and> follows cls tc (rho @ t)) \<or> occ cls tc (is_word (last rho)) t"
    and after: "is_word (last rho) \<or> (\<forall>prev s n. match_at Q prev s = Some (Suc n) \<longrightarrow> \<not> is_word (s ! n))"
  shows "(pw_in \<longrightarrow> pw_out) \<Longrightarrow> \<not> occ cls tc pw_in s
    \<Longrightarrow> \<not> occ cls tc pw_out (replace_from Q rho prev s)"
proof (induction s arbitrary: pw_in pw_out prev rule: length_induct)
  case (1 s)
  note transfer = follows_transfer [OF nonempty rho reject start]
  have first: "\<not> (\<not> pw_out \<and> follows cls tc (replace_from Q rho prev s))"
  proof
    assume a: "\<not> pw_out \<and> follows cls tc (replace_from Q rho prev s)"
    then have "follows cls tc s" by (auto dest: transfer)
    moreover from a "1.prems"(1) have "\<not> pw_in" by auto
    ultimately have "occ cls tc pw_in s" by (cases s) auto
    with "1.prems"(2) show False by simp
  qed
  show ?case
  proof (cases s)
    case Nil
    with first show ?thesis by (simp add: nonempty)
  next
    case (Cons c cs)
    show ?thesis
    proof (cases "match_at Q prev (c # cs)")
      case None
      then have out: "replace_from Q rho prev s = c # replace_from Q rho (Some c) cs"
        by (simp add: Cons)
      from "1.prems"(2) Cons have "\<not> occ cls tc (is_word c) cs" by simp
      with "1.IH" Cons have "\<not> occ cls tc (is_word c) (replace_from Q rho (Some c) cs)"
        by auto
      with first out show ?thesis by simp
    next
      case (Some n)
      with nonempty(2) [of prev "c # cs"] obtain m where n: "n = Suc m"
        by (cases n) auto
      let ?rest = "drop m cs"
      let ?out' = "replace_from Q rho (Some ((c # cs) ! m)) ?rest"
      from Some n have out: "replace_from Q rho prev s = rho @ ?out'"
        by (simp add: Cons)
      have suffix: "\<not> occ cls tc (is_word ((c # cs) ! m)) ?rest"
      proof (cases "m < length (c # cs)")
        case True
        with "1.prems"(2) occ_drop [of cls tc pw_in "c # cs" m] show ?thesis
          by (simp add: Cons)
      next
        case False
        then have "drop m cs = []" by simp
        then show ?thesis using occ_Nil [OF cls] by simp
      qed
      have ctx: "is_word ((c # cs) ! m) \<longrightarrow> is_word (last rho)"
        using after Some n by auto
      have "length ?rest < length s" by (simp add: Cons)
      with "1.IH" suffix ctx have "\<not> occ cls tc (is_word (last rho)) ?out'"
        by blast
      with inside [of pw_out ?out'] first out show ?thesis
        by auto
    qed
  qed
qed

lemma occ_removed:
  assumes cls: "cls = cl # cls'"
    and char: "\<And>prev s. (match_at T prev s \<noteq> None) = (\<not> word_before prev \<and> follows cls tc s)"
    and nonempty: "\<And>prev. match_at T prev [] = None" "\<And>prev s. match_at T prev s \<noteq> Some 0"
    and rho: "rho \<noteq> []"
    and reject: "\<not> cl (hd rho)"
    and transfer: "\<And>prev s. follows cls tc (replace_from T rho prev s) \<Longrightarrow> follows cls tc s"
    and inside: "\<And>pw t. occ cls tc pw (rho @ t) \<Longrightarrow> (\<not> pw \<and> follows cls tc (rho @ t)) \<or> occ cls tc (is_word (last rho)) t"
    and after: "is_word (last rho)"
  shows "(word_before prev \<longrightarrow> pw_out) \<Longrightarrow> \<not> occ cls tc pw_out (replace_from T rho prev s)"
proof (induction s arbitrary: pw_out prev rule: length_induct)
  case (1 s)
  note cl = cls
  from rho obtain r rs where r: "rho = r # rs" by (cases rho) auto
  have first: "\<not> (\<not> pw_out \<and> follows cls tc (replace_from T rho prev s))"
  proof
    assume a: "\<not> pw_out \<and> follows cls tc (replace_from T rho prev s)"
    then have "follows cls tc s" by (auto dest: transfer)
    moreover from a "1.prems" have "\<not> word_before prev" by auto
    ultimately have m: "match_at T prev s \<noteq> None" unfolding char by simp
    then obtain c cs where s: "s = c # cs"
      using nonempty(1) by (cases s) auto
    from m obtain n where "match_at T prev s = Some n" by auto
    moreover with nonempty(2) [of prev s] obtain k where "n = Suc k" by (cases n) auto
    ultimately have "replace_from T rho prev s = rho @ replace_from T rho (Some ((c # cs) ! k)) (drop k cs)"
      by (simp add: s)
    with a have "follows cls tc (r # rs @ replace_from T rho (Some ((c # cs) ! k)) (drop k cs))"
      by (simp add: r)
    with reject show False by (simp add: cl r)
  qed
  show ?case
  proof (cases s)
    case Nil
    with first show ?thesis by (simp add: nonempty)
  next
    case (Cons c cs)
    show ?thesis
    proof (cases "match_at T prev (c # cs)")
      case None
      then have out: "replace_from T rho prev s = c # replace_from T rho (Some c) cs"
        by (simp add: Cons)
      from "1.IH" Cons have "\<not> occ cls tc (is_word c) (replace_from T rho (Some c) cs)"
        by (simp add: word_before_def)
      with first out show ?thesis by simp
    next
      case (Some n)
      with nonempty(2) [of prev "c # cs"] obtain m where n: "n = Suc m"
        by (cases n) auto
      let ?rest = "drop m cs"
      let ?out' = "replace_from T rho (Some ((c # cs) ! m)) ?rest"
      from Some n have out: "replace_from T rho prev s = rho @ ?out'"
        by (simp add: Cons)
      have "length ?rest < length s" by (simp add: Cons)
      with "1.IH" after have "\<not> occ cls tc (is_word (last rho)) ?out'"
        by blast
      with inside [of pw_out ?out'] first out show ?thesis
        by auto
    qed
  qed
qed

lemma occ_word:
  "list_all is_word w \<Longrightarrow> w \<noteq> [] \<Longrightarrow> occ cls tc pw (w @ t)
   \<Longrightarrow> (\<not> pw \<and> follows cls tc (w @ t)) \<or> occ cls tc True t"
proof (induction w arbitrary: pw)
  case Nil
  then show ?case by simp
next
  case (Cons c w)
  show ?case
  proof (cases "w = []")
    case True
    with Cons.prems show ?thesis by auto
  next
    case False
    with Cons.prems Cons.IH [of "is_word c"] show ?thesis by auto
  qed
qed

lemma inside_word:
  assumes "list_all is_word w" "w \<noteq> []"
  shows "occ cls tc pw (w @ t) \<Longrightarrow> (\<not> pw \<and> follows cls tc (w @ t)) \<or> occ cls tc (is_word (last w)) t"
proof -
  from assms have "is_word (last w)"
    by (simp add: list_all_iff)
  with occ_word [OF assms] show "occ cls tc pw (w @ t) \<Longrightarrow> ?thesis"
    by auto
qed

lemma inside_two_words:
  assumes w1: "list_all is_word w1" "w1 \<noteq> []" and w2: "list_all is_word w2" "w2 \<noteq> []"
    and cls: "cls = cl # cls'" and rej: "\<not> cl (hd w2)"
  shows "occ cls tc pw ((w1 @ CHR '' '' # w2) @ t)
    \<Longrightarrow> (\<not> pw \<and> follows cls tc ((w1 @ CHR '' '' # w2) @ t))
        \<or> occ cls tc (is_word (last (w1 @ CHR '' '' # w2))) t"
proof -
  assume "occ cls tc pw ((w1 @ CHR '' '' # w2) @ t)"
  then have "occ cls tc pw (w1 @ (CHR '' '' # w2 @ t))" by simp
  from occ_word [OF w1 this] show ?thesis
  proof
    assume "\<not> pw \<and> follows cls tc (w1 @ CHR '' '' # w2 @ t)"
    then show ?thesis by simp
  next
    assume "occ cls tc True (CHR '' '' # w2 @ t)"
    then have "occ cls tc (is_word CHR '' '') (w2 @ t)" by simp
    from occ_word [OF w2 this] have "follows cls tc (w2 @ t) \<or> occ cls tc True t"
      by auto
    moreover from w2(2) rej have "\<not> follows cls tc (w2 @ t)"
      by (cases w2) (auto simp: cls)
    moreover from w2 have "is_word (last (w1 @ CHR '' '' # w2))"
      by (simp add: list_all_iff)
    ultimately show ?thesis by simp
  qed
qed

lemma nonempty_user_id:
  "match_at user_id_pattern prev [] = None" "match_at user_id_pattern prev s \<noteq> Some 0"
  by (simp_all add: match_user_id user_id_classes_def)

lemma nonempty_uuid:
  "match_at uuid_pattern prev [] = None" "match_at uuid_pattern prev s \<noteq> Some 0"
  by (simp_all add: match_uuid uuid_classes_def follows_replicate run_Nil)

lemma nonempty_hex32:
  "match_at hex32_pattern prev [] = None" "match_at hex32_pattern prev s \<noteq> Some 0"
  by (simp_all add: match_hex32 follows_replicate_end run_Nil)

lemma nonempty_order_hex:
  "match_at order_hex_pattern prev [] = None" "match_at order_hex_pattern prev s \<noteq> Some 0"
  by (auto simp: match_order_hex split: list.splits)

lemma nonempty_spaces:
  "match_at spaces_pattern prev [] = None" "match_at spaces_pattern prev s \<noteq> Some 0"
  by (simp_all add: match_spaces run_Nil)

lemma spaces_first:
  "match_at spaces_pattern prev (c # cs) \<noteq> None \<Longrightarrow> is_space c"
  by (auto simp: match_spaces run_Cons split: if_splits)

lemma spaces_last:
  "match_at spaces_pattern prev s = Some (Suc n) \<Longrightarrow> is_space (s ! n)"
  by (auto simp: match_spaces intro: run_nth split: if_splits)

lemma plain_user_id: "plain user_id_classes is_digit"
  by (auto simp: plain_def user_id_classes_def ci_def dash_def is_digit_def is_space_def
      less_eq_char_def)

lemma uuid_class_cases:
  "cl \<in> set uuid_classes \<Longrightarrow> cl = is_hex \<or> cl = dash
     \<or> cl = (\<lambda>c. CHR ''1'' \<le> c \<and> c \<le> CHR ''5'')
     \<or> cl = (\<lambda>c. c = CHR ''8'' \<or> c = CHR ''9'' \<or> c = CHR ''a'' \<or> c = CHR ''b''
                \<or> c = CHR ''A'' \<or> c = CHR ''B'')"
  unfolding uuid_classes_def by auto

lemma plain_uuid: "plain uuid_classes none"
proof -
  have "\<not> cl CHR ''y'' \<and> \<not> cl CHR ''o'' \<and> (\<forall>c. is_space c \<longrightarrow> \<not> cl c)"
    if "cl \<in> set uuid_classes" for cl
    using uuid_class_cases [OF that]
    by (auto simp: dash_def is_hex_def is_digit_def is_space_def less_eq_char_def)
  moreover have "uuid_classes \<noteq> []"
    by (simp add: uuid_classes_def)
  ultimately show ?thesis
    by (auto simp: plain_def none_def)
qed

lemma plain_hex32: "plain (replicate 32 is_hex) none"
  by (auto simp: plain_def is_hex_def is_digit_def is_space_def none_def less_eq_char_def)

lemma your_order_words: "''your order'' = ''your'' @ CHR '' '' # ''order''"
  by simp

lemma is_word_letters: "list_all is_word ''your''" "list_all is_word ''order''"
  "list_all is_word ''there''"
  by (simp_all add: is_word_def is_digit_def less_eq_char_def)

lemma inside_your_order:
  assumes "plain cls tc"
  shows "occ cls tc pw (''your order'' @ t)
    \<Longrightarrow> (\<not> pw \<and> follows cls tc (''your order'' @ t))
        \<or> occ cls tc (is_word (last ''your order'')) t"
proof -
  from assms obtain cl cls' where cls: "cls = cl # cls'" and "\<not> cl CHR ''o''"
    by (cases cls) (auto simp: plain_def)
  then have rej: "\<not> cl (hd ''order'')" by simp
  show "occ cls tc pw (''your order'' @ t) \<Longrightarrow> ?thesis"
    unfolding your_order_words
    by (rule inside_two_words [OF is_word_letters(1) _ is_word_letters(2) _ cls rej]) simp_all
qed

lemma keep_word_rho:
  assumes plain: "plain cls tc"
    and nonempty: "\<And>prev. match_at Q prev [] = None" "\<And>prev s. match_at Q prev s \<noteq> Some 0"
    and rho: "rho = ''your order'' \<or> rho = ''order''"
    and free: "\<not> occ cls tc False s"
  shows "\<not> occ cls tc False (replace_all Q rho s)"
proof -
  from plain have cls: "cls \<noteq> []" by (simp add: plain_def)
  from rho have r: "rho \<noteq> []" "is_word (hd rho)" "is_word (last rho)"
    by (auto simp: is_word_def is_digit_def less_eq_char_def)
  from rho plain have rej: "\<not> tc (hd rho)" "\<forall>cl \<in> set cls. \<not> cl (hd rho)"
    by (auto simp: plain_def)
  have inside: "occ cls tc pw (rho @ t)
      \<Longrightarrow> (\<not> pw \<and> follows cls tc (rho @ t)) \<or> occ cls tc (is_word (last rho)) t" for pw t
    using rho
  proof
    assume "rho = ''your order''"
    then show "occ cls tc pw (rho @ t) \<Longrightarrow> ?thesis"
      using inside_your_order [OF plain] by simp
  next
    assume "rho = ''order''"
    then show "occ cls tc pw (rho @ t) \<Longrightarrow> ?thesis"
      using inside_word [OF is_word_letters(2)] by simp
  qed
  have start: "is_word (hd rho) \<or> (\<forall>prev c cs. match_at Q prev (c # cs) \<noteq> None
      \<longrightarrow> \<not> is_word c \<and> \<not> tc c)"
    using r(2) by simp
  have after: "is_word (last rho) \<or> (\<forall>prev s n. match_at Q prev s = Some (Suc n)
      \<longrightarrow> \<not> is_word (s ! n))"
    using r(3) by simp
  have imp: "False \<longrightarrow> False"
    by simp
  show ?thesis
    unfolding replace_all_def
    by (rule occ_preserved
        [OF cls nonempty(1) nonempty(2) r(1) rej(1) rej(2) start inside after imp free])
qed

lemma keep_spaces:
  assumes plain: "plain cls tc" and free: "\<not> occ cls tc False s"
  shows "\<not> occ cls tc False (replace_all spaces_pattern '' '' s)"
proof -
  from plain have cls: "cls \<noteq> []" by (simp add: plain_def)
  have sp: "is_space CHR '' ''" by (simp add: is_space_def)
  from plain sp have rej: "\<not> tc (hd '' '')" "\<forall>cl \<in> set cls. \<not> cl (hd '' '')"
    by (auto simp: plain_def)
  have start: "is_word (hd '' '') \<or> (\<forall>prev c cs. match_at spaces_pattern prev (c # cs) \<noteq> None
      \<longrightarrow> \<not> is_word c \<and> \<not> tc c)"
  proof -
    have "\<not> is_word c \<and> \<not> tc c" if "match_at spaces_pattern prev (c # cs) \<noteq> None" for prev c cs
    proof -
      from that have "is_space c" by (rule spaces_first)
      with plain show ?thesis by (auto simp: plain_def dest: is_space_not_word)
    qed
    then show ?thesis by blast
  qed
  have after: "is_word (last '' '') \<or> (\<forall>prev s n. match_at spaces_pattern prev s = Some (Suc n)
      \<longrightarrow> \<not> is_word (s ! n))"
  proof -
    have "\<not> is_word (s ! n)" if "match_at spaces_pattern prev s = Some (Suc n)" for prev s n
      using spaces_last [OF that] by (rule is_space_not_word)
    then show ?thesis by blast
  qed
  have inside: "occ cls tc pw ('' '' @ t)
      \<Longrightarrow> (\<not> pw \<and> follows cls tc ('' '' @ t)) \<or> occ cls tc (is_word (last '' '')) t" for pw t
    by auto
  have rho: "'' '' \<noteq> []"
    by simp
  have imp: "False \<longrightarrow> False"
    by simp
  show ?thesis
    unfolding replace_all_def
    by (rule occ_preserved
        [OF cls nonempty_spaces(1) nonempty_spaces(2) rho rej(1) rej(2) start inside after imp free])
qed

section \<open>Properties of the sanitized draft\<close>

lemma displayName_None: "displayName None = ''there''"
  by (simp add: displayName_def fakeDisplayName_def)

lemmas sanitize_simps = sanitizeDraftResponse_def draft_base_def displayName_None trim_def
  replace_all_def match_simps

subsection \<open>Each replacement removes the shape it looks for\<close>

text \<open>
  A replacement by \<^verbatim>\<open>your order\<close> leaves no match of its own pattern: the phrase holds no
  character of the pattern, and it begins and ends with a word character, so that no word
  boundary appears beside it that was not there before.
\<close>

lemma removed_your_order:
  assumes plain: "plain cls tc"
    and char: "\<And>prev s. (match_at T prev s \<noteq> None) = (\<not> word_before prev \<and> follows cls tc s)"
    and nonempty: "\<And>prev. match_at T prev [] = None" "\<And>prev s. match_at T prev s \<noteq> Some 0"
  shows "\<not> occ cls tc False (replace_all T ''your order'' s)"
proof -
  from plain obtain cl cls' where cls: "cls = cl # cls'"
    by (cases cls) (auto simp: plain_def)
  have rho: "''your order'' \<noteq> []"
    by simp
  from plain cls have reject: "\<not> cl (hd ''your order'')"
    by (simp add: plain_def)
  from plain have rej: "\<not> tc (hd ''your order'')" "\<forall>cl \<in> set cls. \<not> cl (hd ''your order'')"
    by (auto simp: plain_def)
  have start: "is_word (hd ''your order'') \<or> (\<forall>prev c cs. match_at T prev (c # cs) \<noteq> None
      \<longrightarrow> \<not> is_word c \<and> \<not> tc c)"
    by (simp add: is_word_def is_digit_def less_eq_char_def)
  have transfer: "follows cls tc (replace_from T ''your order'' prev s) \<Longrightarrow> follows cls tc s"
    for prev s
    by (rule follows_transfer [OF nonempty(1) nonempty(2) rho rej(1) rej(2) start])
  have after: "is_word (last ''your order'')"
    by (simp add: is_word_def is_digit_def less_eq_char_def)
  have imp: "word_before None \<longrightarrow> False"
    by (simp add: word_before_def)
  show ?thesis
    unfolding replace_all_def
    by (rule occ_removed [OF cls char nonempty(1) nonempty(2) rho reject transfer
          inside_your_order [OF plain] after imp])
qed

lemma char_hex32:
  "(match_at hex32_pattern prev s \<noteq> None)
     = (\<not> word_before prev \<and> follows (replicate 32 is_hex) none s)"
  by (simp add: match_hex32)

lemma char_uuid:
  "(match_at uuid_pattern prev s \<noteq> None) = (\<not> word_before prev \<and> follows uuid_classes none s)"
  by (simp add: match_uuid)

lemma char_user_id:
  "(match_at user_id_pattern prev s \<noteq> None)
     = (\<not> word_before prev \<and> follows user_id_classes is_digit s)"
  by (simp add: match_user_id)

lemma removed_hex32:
  "\<not> occ (replicate 32 is_hex) none False (replace_all hex32_pattern ''your order'' s)"
  by (rule removed_your_order [OF plain_hex32 char_hex32 nonempty_hex32(1) nonempty_hex32(2)])

lemma removed_uuid:
  "\<not> occ uuid_classes none False (replace_all uuid_pattern ''your order'' s)"
  by (rule removed_your_order [OF plain_uuid char_uuid nonempty_uuid(1) nonempty_uuid(2)])

text \<open>
  The display name is \<^verbatim>\<open>there\<close> or a first name, a space and a last name of the two fixed
  lists; none of them holds a digit or a dash, and each begins and ends with a letter.
\<close>

lemma user_id_class_word:
  "i < 6 \<Longrightarrow> i \<noteq> 4 \<Longrightarrow> (user_id_classes ! i) c \<Longrightarrow> is_word c"
proof -
  assume "i < 6" "i \<noteq> 4" "(user_id_classes ! i) c"
  moreover from \<open>i < 6\<close> have "i = 0 \<or> i = 1 \<or> i = 2 \<or> i = 3 \<or> i = 4 \<or> i = 5"
    by arith
  ultimately show ?thesis
    by (auto simp: user_id_classes_def ci_def is_word_def is_digit_def less_eq_char_def)
qed

lemma user_id_transfer:
  assumes dn: "dn \<noteq> []" "\<not> ci CHR ''u'' CHR ''U'' (hd dn)" "\<not> is_digit (hd dn)"
  shows "i \<le> 6 \<Longrightarrow> word_before prev \<or> i = 0 \<or> i = 5
    \<Longrightarrow> follows (drop i user_id_classes) is_digit (replace_from user_id_pattern dn prev s)
    \<Longrightarrow> follows (drop i user_id_classes) is_digit s"
proof (induction s arbitrary: i prev)
  case Nil
  then show ?case by (simp add: nonempty_user_id)
next
  case (Cons c cs)
  have len: "length user_id_classes = 6"
    by (simp add: user_id_classes_def)
  from dn(1) obtain r rs where r: "dn = r # rs" by (cases dn) auto
  show ?case
  proof (cases "match_at user_id_pattern prev (c # cs)")
    case None
    then have out: "replace_from user_id_pattern dn prev (c # cs)
        = c # replace_from user_id_pattern dn (Some c) cs"
      by simp
    show ?thesis
    proof (cases "i = 6")
      case True
      with Cons.prems(3) out len
      have "run_end is_digit (c # replace_from user_id_pattern dn (Some c) cs)"
        by simp
      moreover have "run_end is_digit cs"
        if "is_digit c" "run_end is_digit (replace_from user_id_pattern dn (Some c) cs)"
        using Cons.IH [of 6 "Some c"] that len
        by (simp add: word_before_def is_digit_word)
      ultimately show ?thesis
        using True len by (auto split: if_splits)
    next
      case False
      with Cons.prems(1) have i: "i < 6" by simp
      then have d: "drop i user_id_classes = user_id_classes ! i # drop (Suc i) user_id_classes"
        by (simp add: Cons_nth_drop_Suc len)
      from Cons.prems(3) out d have c: "(user_id_classes ! i) c"
        and rest: "follows (drop (Suc i) user_id_classes) is_digit
                     (replace_from user_id_pattern dn (Some c) cs)"
        by simp_all
      have "word_before (Some c) \<or> Suc i = 0 \<or> Suc i = 5"
        using user_id_class_word [OF i _ c] by (cases "i = 4") (simp_all add: word_before_def)
      with Cons.IH [of "Suc i" "Some c"] i rest
      have "follows (drop (Suc i) user_id_classes) is_digit cs"
        by simp
      with c d show ?thesis by simp
    qed
  next
    case (Some n)
    with nonempty_user_id(2) [of prev "c # cs"] obtain m where n: "n = Suc m"
      by (cases n) auto
    from Some have "\<not> word_before prev"
      using char_user_id [of prev "c # cs"] by simp
    with Cons.prems(2) have i: "i = 0 \<or> i = 5" by simp
    from Some n have out: "replace_from user_id_pattern dn prev (c # cs)
        = r # rs @ replace_from user_id_pattern dn (Some ((c # cs) ! m)) (drop m cs)"
      by (simp add: r)
    from i Cons.prems(3) dn(2,3) show ?thesis
      unfolding out by (auto simp: user_id_classes_def r)
  qed
qed

lemma name_hash_index: "h mod length FIRST_NAMES < length FIRST_NAMES"
  "h div length FIRST_NAMES mod length LAST_NAMES < length LAST_NAMES"
  by (simp_all add: FIRST_NAMES_def LAST_NAMES_def)

lemma displayName_cases:
  "displayName userId = ''there''
   \<or> (\<exists>f l. f \<in> set FIRST_NAMES \<and> l \<in> set LAST_NAMES \<and> displayName userId = f @ CHR '' '' # l)"
proof (cases "fakeDisplayName userId")
  case None
  then show ?thesis by (simp add: displayName_def)
next
  case (Some n)
  then obtain u where n: "n = FIRST_NAMES ! (unat (name_hash 0 u) mod length FIRST_NAMES) @ '' ''
      @ LAST_NAMES ! (unat (name_hash 0 u) div length FIRST_NAMES mod length LAST_NAMES)"
    by (auto simp: fakeDisplayName_def Let_def split: option.splits if_splits)
  have "FIRST_NAMES ! (unat (name_hash 0 u) mod length FIRST_NAMES) \<in> set FIRST_NAMES"
    "LAST_NAMES ! (unat (name_hash 0 u) div length FIRST_NAMES mod length LAST_NAMES) \<in> set LAST_NAMES"
    using name_hash_index by (simp_all only: nth_mem)
  with n Some show ?thesis
    by (auto simp: displayName_def)
qed

lemma names_words:
  "w \<in> set FIRST_NAMES \<union> set LAST_NAMES
   \<Longrightarrow> list_all is_word w \<and> w \<noteq> [] \<and> \<not> ci CHR ''u'' CHR ''U'' (hd w) \<and> \<not> is_digit (hd w)"
  by (auto simp: FIRST_NAMES_def LAST_NAMES_def is_word_def is_digit_def ci_def less_eq_char_def)

lemma removed_user_id:
  "\<not> occ user_id_classes is_digit False (replace_all user_id_pattern (displayName userId) s)"
proof -
  let ?dn = "displayName userId"
  let ?u = "ci CHR ''u'' CHR ''U''"
  have cls: "user_id_classes = ?u # [ci CHR ''s'' CHR ''S'', ci CHR ''e'' CHR ''E'',
     ci CHR ''r'' CHR ''R'', dash, is_digit]"
    by (simp add: user_id_classes_def)
  have there: "list_all is_word ''there''" "\<not> ?u (hd ''there'')" "\<not> is_digit (hd ''there'')"
    by (simp_all add: is_word_def is_digit_def ci_def less_eq_char_def)
  have facts: "?dn \<noteq> [] \<and> \<not> ?u (hd ?dn) \<and> \<not> is_digit (hd ?dn) \<and> is_word (last ?dn)
    \<and> (\<forall>pw t. occ user_id_classes is_digit pw (?dn @ t)
          \<longrightarrow> (\<not> pw \<and> follows user_id_classes is_digit (?dn @ t))
              \<or> occ user_id_classes is_digit (is_word (last ?dn)) t)"
    using displayName_cases [of userId]
  proof
    assume dn: "?dn = ''there''"
    have "occ user_id_classes is_digit pw (''there'' @ t)
      \<Longrightarrow> (\<not> pw \<and> follows user_id_classes is_digit (''there'' @ t))
          \<or> occ user_id_classes is_digit (is_word (last ''there'')) t" for pw t
      by (rule inside_word [OF there(1)]) simp_all
    with there show ?thesis
      unfolding dn by (simp add: is_word_def is_digit_def less_eq_char_def)
  next
    assume "\<exists>f l. f \<in> set FIRST_NAMES \<and> l \<in> set LAST_NAMES \<and> ?dn = f @ CHR '' '' # l"
    then obtain f l where f: "f \<in> set FIRST_NAMES" and l: "l \<in> set LAST_NAMES"
      and dn: "?dn = f @ CHR '' '' # l"
      by blast
    from f have wf: "list_all is_word f" "f \<noteq> []" "\<not> ?u (hd f)" "\<not> is_digit (hd f)"
      using names_words [of f] by simp_all
    from l have wl: "list_all is_word l" "l \<noteq> []" "\<not> ?u (hd l)"
      using names_words [of l] by simp_all
    have "occ user_id_classes is_digit pw ((f @ CHR '' '' # l) @ t)
      \<Longrightarrow> (\<not> pw \<and> follows user_id_classes is_digit ((f @ CHR '' '' # l) @ t))
          \<or> occ user_id_classes is_digit (is_word (last (f @ CHR '' '' # l))) t" for pw t
      by (rule inside_two_words [OF wf(1,2) wl(1,2) cls wl(3)])
    moreover from wl have "is_word (last (f @ CHR '' '' # l))"
      by (simp add: list_all_iff)
    ultimately show ?thesis
      unfolding dn using wf by (simp add: hd_append)
  qed
  then have dn: "?dn \<noteq> []" "\<not> ?u (hd ?dn)" "\<not> is_digit (hd ?dn)" and after: "is_word (last ?dn)"
    and inside: "\<And>pw t. occ user_id_classes is_digit pw (?dn @ t)
          \<Longrightarrow> (\<not> pw \<and> follows user_id_classes is_digit (?dn @ t))
              \<or> occ user_id_classes is_digit (is_word (last ?dn)) t"
    by blast+
  have transfer: "follows user_id_classes is_digit (replace_from user_id_pattern ?dn prev s)
    \<Longrightarrow> follows user_id_classes is_digit s" for prev s
    using user_id_transfer [OF dn, of 0 prev s] by simp
  have imp: "word_before None \<longrightarrow> False"
    by (simp add: word_before_def)
  show ?thesis
    unfolding replace_all_def
    by (rule occ_removed [OF cls char_user_id nonempty_user_id(1) nonempty_user_id(2) dn(1) dn(2)
          transfer inside after imp])
qed

subsection \<open>Trimming\<close>

lemma occ_dropWhile:
  "\<not> occ cls tc False s \<Longrightarrow> \<not> occ cls tc False (dropWhile is_space s)"
  by (induction s) (auto dest: is_space_not_word)

lemma run_end_append_spaces:
  "\<forall>c. is_space c \<longrightarrow> \<not> tc c \<Longrightarrow> list_all is_space ws \<Longrightarrow> run_end tc s
   \<Longrightarrow> run_end tc (s @ ws)"
proof (induction s)
  case Nil
  then show ?case
    by (cases ws) (auto dest: is_space_not_word)
next
  case (Cons c s)
  then show ?case by (auto split: if_splits)
qed

lemma follows_append_spaces:
  "\<forall>c. is_space c \<longrightarrow> \<not> tc c \<Longrightarrow> list_all is_space ws \<Longrightarrow> follows cls tc s
   \<Longrightarrow> follows cls tc (s @ ws)"
  by (induction cls tc s rule: follows.induct) (simp_all add: run_end_append_spaces)

lemma occ_append_spaces:
  assumes "plain cls tc" "list_all is_space ws"
  shows "occ cls tc pw s \<Longrightarrow> occ cls tc pw (s @ ws)"
proof (induction s arbitrary: pw)
  case Nil
  from assms(1) have "\<not> follows cls tc []"
    by (cases cls) (simp_all add: plain_def)
  with Nil show ?case by simp
next
  case (Cons c s)
  from assms(1) have tc: "\<forall>c. is_space c \<longrightarrow> \<not> tc c"
    by (simp add: plain_def)
  from Cons follows_append_spaces [OF tc assms(2), of cls "c # s"] show ?case
    by auto
qed

lemma trim_split: "\<exists>ws. list_all is_space ws \<and> dropWhile is_space s = trim s @ ws"
proof -
  let ?u = "dropWhile is_space s"
  have "rev (takeWhile is_space (rev ?u) @ dropWhile is_space (rev ?u)) = ?u"
    by (simp only: takeWhile_dropWhile_id rev_rev_ident)
  then have "?u = trim s @ rev (takeWhile is_space (rev ?u))"
    by (simp only: rev_append trim_def)
  moreover have "list_all is_space (rev (takeWhile is_space (rev ?u)))"
    by (auto simp: list_all_iff dest: set_takeWhileD)
  ultimately show ?thesis by blast
qed

lemma occ_trim:
  assumes "plain cls tc" "\<not> occ cls tc False s"
  shows "\<not> occ cls tc False (trim s)"
proof -
  from trim_split obtain ws where ws: "list_all is_space ws" "dropWhile is_space s = trim s @ ws"
    by blast
  from assms(2) have "\<not> occ cls tc False (dropWhile is_space s)"
    by (rule occ_dropWhile)
  with occ_append_spaces [OF assms(1) ws(1), of False "trim s"] ws(2) show ?thesis
    by auto
qed

lemma trim_ends:
  "trim s = [] \<or> (\<not> is_space (hd (trim s)) \<and> \<not> is_space (last (trim s)))"
proof (cases "trim s = []")
  case True
  then show ?thesis by simp
next
  case False
  let ?u = "dropWhile is_space s"
  let ?v = "dropWhile is_space (rev ?u)"
  from False have v: "?v \<noteq> []"
    by (simp add: trim_def)
  have u: "?u \<noteq> []"
  proof
    assume a: "?u = []"
    have "?v = []" unfolding a by simp
    with v show False by blast
  qed
  from v have "\<not> is_space (hd ?v)"
    by (rule hd_dropWhile)
  with v have last: "\<not> is_space (last (trim s))"
    by (simp add: trim_def last_rev)
  from u have hu: "\<not> is_space (hd ?u)"
    by (rule hd_dropWhile)
  from u have "hd ?u \<in> set (rev ?u)"
    by simp
  from dropWhile_last [of "hd ?u" "rev ?u" is_space, OF this hu] u have "last ?v = hd ?u"
    by (simp add: last_rev)
  with v hu have "\<not> is_space (hd (trim s))"
    by (simp add: trim_def hd_rev)
  with last show ?thesis by simp
qed

lemma trim_trim: "trim (trim s) = trim s"
proof -
  define t where "t = trim s"
  have "trim t = t"
  proof (cases "t = []")
    case True
    then show ?thesis by (simp add: trim_def)
  next
    case False
    with trim_ends [of s] have e: "\<not> is_space (hd t)" "\<not> is_space (last t)"
      by (simp_all add: t_def)
    from False e(1) have front: "dropWhile is_space t = t"
      by (cases t) simp_all
    from False e(2) have "\<not> is_space (hd (rev t))"
      by (simp add: hd_rev)
    with False have "dropWhile is_space (rev t) = rev t"
      by (cases "rev t") simp_all
    with front show ?thesis
      by (simp add: trim_def)
  qed
  then show ?thesis
    by (simp add: t_def)
qed

subsection \<open>No run of two white-space characters is left\<close>

lemma occurs_spaces_prev:
  "occurs_from spaces_pattern prev s = occurs_from spaces_pattern prev' s"
  by (induction s arbitrary: prev prev') (simp_all add: match_spaces)

lemma run_replace_spaces:
  "run is_space s = 0 \<Longrightarrow> run is_space (replace_from spaces_pattern rho prev s) = 0"
  by (cases s) (auto simp: match_spaces run_Cons run_Nil split: if_splits)

lemma removed_spaces:
  "\<not> occurs_from spaces_pattern prev' (replace_from spaces_pattern '' '' prev s)"
proof (induction s arbitrary: prev prev' rule: length_induct)
  case (1 s)
  show ?case
  proof (cases s)
    case Nil
    then show ?thesis by (simp add: match_spaces run_Nil)
  next
    case (Cons c cs)
    show ?thesis
    proof (cases "2 \<le> run is_space (c # cs)")
      case False
      then have out: "replace_from spaces_pattern '' '' prev s
          = c # replace_from spaces_pattern '' '' (Some c) cs"
        by (simp add: Cons match_spaces)
      from False have "is_space c \<Longrightarrow> run is_space cs = 0"
        by (simp add: run_Cons split: if_splits)
      then have "is_space c \<Longrightarrow> run is_space (replace_from spaces_pattern '' '' (Some c) cs) = 0"
        by (rule run_replace_spaces)
      then have "\<not> 2 \<le> run is_space (c # replace_from spaces_pattern '' '' (Some c) cs)"
        by (auto simp: run_Cons)
      moreover from "1.IH" have "\<not> occurs_from spaces_pattern (Some c)
          (replace_from spaces_pattern '' '' (Some c) cs)"
        by (simp add: Cons)
      ultimately show ?thesis
        by (simp add: out match_spaces)
    next
      case True
      then obtain n where n: "run is_space (c # cs) = Suc n"
        by (cases "run is_space (c # cs)") auto
      let ?rest = "drop n cs"
      let ?out = "replace_from spaces_pattern '' '' (Some ((c # cs) ! n)) ?rest"
      from True n have out: "replace_from spaces_pattern '' '' prev s = CHR '' '' # ?out"
        by (simp add: Cons match_spaces)
      have "?rest = drop (run is_space (c # cs)) (c # cs)"
        by (simp add: n)
      then have "run is_space ?rest = 0"
        by (simp only: run_drop_run)
      then have "run is_space ?out = 0"
        by (rule run_replace_spaces)
      then have "\<not> 2 \<le> run is_space (CHR '' '' # ?out)"
        by (simp add: run_Cons)
      moreover have "length ?rest < length s"
        by (simp add: Cons)
      with "1.IH" have "\<not> occurs_from spaces_pattern (Some CHR '' '') ?out"
        by blast
      ultimately show ?thesis
        by (simp add: out match_spaces)
    qed
  qed
qed

lemma run_append_le: "run cl s \<le> run cl (s @ t)"
  by (induction s) (simp_all add: run_Cons run_Nil)

lemma occurs_spaces_append:
  "occurs_from spaces_pattern prev s \<Longrightarrow> occurs_from spaces_pattern prev (s @ t)"
proof (induction s arbitrary: prev)
  case Nil
  then show ?case by (simp add: match_spaces run_Nil)
next
  case (Cons c s)
  from run_append_le [of is_space "c # s" t] Cons show ?case
    by (auto simp: match_spaces split: if_splits)
qed

lemma occurs_spaces_dropWhile:
  "occurs_from spaces_pattern prev (dropWhile P s) \<Longrightarrow> occurs_from spaces_pattern prev s"
proof (induction s arbitrary: prev)
  case Nil
  then show ?case by simp
next
  case (Cons c s)
  then show ?case
    using occurs_spaces_prev [of prev "dropWhile P s" "Some c"] occurs_spaces_prev [of "Some c" s prev]
    by (auto split: if_splits)
qed

lemma occurs_spaces_trim:
  assumes "\<not> occurs_from spaces_pattern prev s"
  shows "\<not> occurs_from spaces_pattern prev (trim s)"
proof
  assume a: "occurs_from spaces_pattern prev (trim s)"
  from trim_split obtain ws where ws: "dropWhile is_space s = trim s @ ws"
    by blast
  from a have "occurs_from spaces_pattern prev (trim s @ ws)"
    by (rule occurs_spaces_append)
  then have "occurs_from spaces_pattern prev s"
    unfolding ws [symmetric] by (rule occurs_spaces_dropWhile)
  with assms show False by simp
qed

subsection \<open>The phrase stays in the text\<close>






lemma spaces_reject: "\<not> is_space c \<Longrightarrow> match_at spaces_pattern prev (c # cs) = None"
  by (simp add: match_spaces run_Cons)







subsection \<open>The whole chain\<close>

lemma replace_from_unmatched:
  "\<not> occurs_from P prev s \<Longrightarrow> replace_from P rho prev s = s"
  by (induction s arbitrary: prev) (auto split: option.splits)

lemma replace_all_unmatched: "\<not> occurs P s \<Longrightarrow> replace_all P rho s = s"
  by (simp add: occurs_def replace_all_def replace_from_unmatched)

lemma occurs_occ:
  assumes "\<And>prev s. (match_at T prev s \<noteq> None) = (\<not> word_before prev \<and> follows cls tc s)"
  shows "occurs T s = occ cls tc False s"
  unfolding occurs_def occurs_from_occ [of T cls tc, OF assms] by (simp add: word_before_def)






lemma kept_to_the_end:
  assumes plain: "plain cls tc" and free: "\<not> occ cls tc False s"
  shows "\<not> occ cls tc False
    (trim (replace_all spaces_pattern '' '' (replace_all order_hex_pattern ''order'' s)))"
proof -
  from plain nonempty_order_hex(1) nonempty_order_hex(2) disjI2 [OF refl] free
  have "\<not> occ cls tc False (replace_all order_hex_pattern ''order'' s)"
    by (rule keep_word_rho)
  with plain have "\<not> occ cls tc False
      (replace_all spaces_pattern '' '' (replace_all order_hex_pattern ''order'' s))"
    by (rule keep_spaces)
  with plain show ?thesis
    by (rule occ_trim)
qed

lemma sanitized_no_user_id: "\<not> occurs user_id_pattern (sanitizeDraftResponse draft userId)"
proof -
  let ?d1 = "replace_all user_id_pattern (displayName userId) (draft_base draft)"
  let ?d2 = "replace_all uuid_pattern ''your order'' ?d1"
  let ?d3 = "replace_all hex32_pattern ''your order'' ?d2"
  have "\<not> occ user_id_classes is_digit False ?d1"
    by (rule removed_user_id)
  with plain_user_id nonempty_uuid(1) nonempty_uuid(2) disjI1 [OF refl]
  have "\<not> occ user_id_classes is_digit False ?d2"
    by (rule keep_word_rho)
  with plain_user_id nonempty_hex32(1) nonempty_hex32(2) disjI1 [OF refl]
  have "\<not> occ user_id_classes is_digit False ?d3"
    by (rule keep_word_rho)
  with plain_user_id show ?thesis
    unfolding sanitizeDraftResponse_def occurs_occ [of user_id_pattern, OF char_user_id]
    by (rule kept_to_the_end)
qed

lemma sanitized_no_uuid: "\<not> occurs uuid_pattern (sanitizeDraftResponse draft userId)"
proof -
  let ?d1 = "replace_all user_id_pattern (displayName userId) (draft_base draft)"
  let ?d2 = "replace_all uuid_pattern ''your order'' ?d1"
  let ?d3 = "replace_all hex32_pattern ''your order'' ?d2"
  have "\<not> occ uuid_classes none False ?d2"
    by (rule removed_uuid)
  with plain_uuid nonempty_hex32(1) nonempty_hex32(2) disjI1 [OF refl]
  have "\<not> occ uuid_classes none False ?d3"
    by (rule keep_word_rho)
  with plain_uuid show ?thesis
    unfolding sanitizeDraftResponse_def occurs_occ [of uuid_pattern, OF char_uuid]
    by (rule kept_to_the_end)
qed

lemma sanitized_no_hex32: "\<not> occurs hex32_pattern (sanitizeDraftResponse draft userId)"
proof -
  let ?d1 = "replace_all user_id_pattern (displayName userId) (draft_base draft)"
  let ?d2 = "replace_all uuid_pattern ''your order'' ?d1"
  let ?d3 = "replace_all hex32_pattern ''your order'' ?d2"
  have "\<not> occ (replicate 32 is_hex) none False ?d3"
    by (rule removed_hex32)
  with plain_hex32 show ?thesis
    unfolding sanitizeDraftResponse_def occurs_occ [of hex32_pattern, OF char_hex32]
    by (rule kept_to_the_end)
qed

lemma sanitized_no_spaces: "\<not> occurs spaces_pattern (sanitizeDraftResponse draft userId)"
  unfolding sanitizeDraftResponse_def occurs_def replace_all_def [of spaces_pattern]
  by (rule occurs_spaces_trim) (rule removed_spaces)


subsection \<open>An identifier between delimiters\<close>







































lemma sanitize_unchanged:
  assumes "\<not> occurs user_id_pattern d" "\<not> occurs uuid_pattern d" "\<not> occurs hex32_pattern d"
    "\<not> occurs order_hex_pattern d" "\<not> occurs spaces_pattern d" "trim d = d"
  shows "sanitizeDraftResponse (JStr d) userId = d"
  using assms by (simp add: sanitizeDraftResponse_def draft_base_def replace_all_unmatched)

subsection \<open>What the sanitizer does to a draft\<close>





section \<open>Properties of the report normalization\<close>

lemma toNullableNumber_JNum: "toNullableNumber v = Some n \<Longrightarrow> toNullableNumber (JNum n) = Some n"
  by (cases v) (auto simp: toNullableNumber_def Let_def split: if_splits)

lemma is_reason_coalesce: "\<not> is_reason v \<Longrightarrow> \<not> is_reason (coalesce v (JStr ''''))"
  by (cases v) (simp_all add: coalesce_def trim_def)

lemma coalesce_idem: "coalesce (coalesce v (JStr '''')) (JStr '''') = coalesce v (JStr '''')"
  by (cases v) (simp_all add: coalesce_def)

lemma normalizeRecommendation_idem:
  "normalizeRecommendation (normalizeRecommendation v) = normalizeRecommendation v"
proof (cases "\<not> truthy v \<or> typeof v \<noteq> ''object''")
  case True
  then show ?thesis
    by (simp add: normalizeRecommendation_def)
next
  case False
  then obtain raw where v: "v = JObj raw"
    by (cases v) auto
  let ?amount = "or_else (toNullableNumber (get_prop raw ''amount_usd''))
                 (or_else (toNullableNumber (get_prop raw ''amount''))
                    (or_else (toNullableNumber (get_prop raw ''credit_amount''))
                       (toNullableNumber (get_prop raw ''refund_amount''))))"
  let ?r1 = "get_prop raw ''reason''"
  let ?r2 = "get_prop raw ''credit_reason''"
  let ?r3 = "get_prop raw ''refund_reason''"
  define a where "a = (case ?amount of None \<Rightarrow> JNull | Some n \<Rightarrow> JNum n)"
  define r where "r = (case List.find is_reason [?r1, ?r2, ?r3] of
              Some r \<Rightarrow> r | None \<Rightarrow> coalesce ?r1 (JStr []))"
  define raw' where "raw' = raw(''amount_usd'' \<mapsto> a, ''reason'' \<mapsto> r)"
  have first: "normalizeRecommendation v = JObj raw'"
    by (simp add: v normalizeRecommendation_def Let_def a_def r_def raw'_def)
  have props: "get_prop raw' ''amount_usd'' = a" "get_prop raw' ''reason'' = r"
    "get_prop raw' ''amount'' = get_prop raw ''amount''"
    "get_prop raw' ''credit_amount'' = get_prop raw ''credit_amount''"
    "get_prop raw' ''refund_amount'' = get_prop raw ''refund_amount''"
    "get_prop raw' ''credit_reason'' = ?r2" "get_prop raw' ''refund_reason'' = ?r3"
    by (simp_all add: get_prop_def raw'_def)
  have amount: "(case or_else (toNullableNumber a)
                 (or_else (toNullableNumber (get_prop raw ''amount''))
                    (or_else (toNullableNumber (get_prop raw ''credit_amount''))
                       (toNullableNumber (get_prop raw ''refund_amount'')))) of
                  None \<Rightarrow> JNull | Some n \<Rightarrow> JNum n) = a"
  proof (cases ?amount)
    case None
    then show ?thesis
      unfolding a_def
      by (auto simp: or_else_def toNullableNumber_def split: option.splits)
  next
    case (Some n)
    then obtain w where "toNullableNumber w = Some n"
      by (auto simp: or_else_def split: option.splits)
    then have "toNullableNumber (JNum n) = Some n"
      by (rule toNullableNumber_JNum)
    with Some show ?thesis
      unfolding a_def
      by (simp add: or_else_def)
  qed
  have reason: "(case List.find is_reason [r, ?r2, ?r3] of
              Some r \<Rightarrow> r | None \<Rightarrow> coalesce r (JStr [])) = r"
    unfolding r_def
    by (auto simp: is_reason_coalesce coalesce_idem)
  have reason': "(case List.find is_reason [r, ?r2, ?r3] of
              Some r \<Rightarrow> r | None \<Rightarrow> coalesce (get_prop raw' ''reason'') (JStr [])) = r"
    unfolding props(2) by (rule reason)
  have "normalizeRecommendation (JObj raw') = JObj (raw'(''amount_usd'' \<mapsto> a, ''reason'' \<mapsto> r))"
    by (simp add: normalizeRecommendation_def Let_def props amount reason' del: find.simps)
  also have "raw'(''amount_usd'' \<mapsto> a, ''reason'' \<mapsto> r) = raw'"
    by (rule ext) (simp add: raw'_def)
  finally show ?thesis
    by (simp add: first)
qed

lemma normalizeReportForUi_draft:
  "get_prop (normalizeReportForUi rawReport userId) ''draft_response''
     = JStr (sanitizeDraftResponse (get_prop rawReport ''draft_response'') userId)"
  "get_prop (normalizeReportForUi rawReport userId) ''credit_recommendation''
     = normalizeRecommendation (get_prop rawReport ''credit_recommendation'')"
  "get_prop (normalizeReportForUi rawReport userId) ''refund_recommendation''
     = normalizeRecommendation (get_prop rawReport ''refund_recommendation'')"
  by (simp_all add: normalizeReportForUi_def get_prop_def)

lemma normalizeReportForUi_again:
  "normalizeReportForUi (normalizeReportForUi rawReport userId) userId
     = (normalizeReportForUi rawReport userId)
         (''draft_response'' \<mapsto>
            JStr (sanitizeDraftResponse
                    (JStr (sanitizeDraftResponse (get_prop rawReport ''draft_response'') userId))
                    userId))"
proof -
  define once where "once = normalizeReportForUi rawReport userId"
  have props: "get_prop once ''draft_response''
      = JStr (sanitizeDraftResponse (get_prop rawReport ''draft_response'') userId)"
    "get_prop once ''credit_recommendation''
      = normalizeRecommendation (get_prop rawReport ''credit_recommendation'')"
    "get_prop once ''refund_recommendation''
      = normalizeRecommendation (get_prop rawReport ''refund_recommendation'')"
    unfolding once_def by (rule normalizeReportForUi_draft)+
  have stored: "once ''credit_recommendation''
      = Some (normalizeRecommendation (get_prop rawReport ''credit_recommendation''))"
    "once ''refund_recommendation''
      = Some (normalizeRecommendation (get_prop rawReport ''refund_recommendation''))"
    unfolding once_def by (simp_all add: normalizeReportForUi_def)
  have "normalizeReportForUi once userId
      = once(''credit_recommendation'' \<mapsto>
               normalizeRecommendation (get_prop rawReport ''credit_recommendation''),
             ''refund_recommendation'' \<mapsto>
               normalizeRecommendation (get_prop rawReport ''refund_recommendation''),
             ''draft_response'' \<mapsto>
               JStr (sanitizeDraftResponse
                       (JStr (sanitizeDraftResponse (get_prop rawReport ''draft_response'') userId))
                       userId))"
    unfolding normalizeReportForUi_def [of once] props normalizeRecommendation_idem
    by (rule refl)
  also have "\<dots> = once(''draft_response'' \<mapsto>
               JStr (sanitizeDraftResponse
                       (JStr (sanitizeDraftResponse (get_prop rawReport ''draft_response'') userId))
                       userId))"
    using stored by (auto simp: fun_eq_iff)
  finally show ?thesis
    unfolding once_def .
qed

text \<open>
  A sanitized draft has no match of the identifier patterns and of the white-space
  pattern, and no white space at its ends.  Sanitizing it again can only change it where
  the pattern \<^verbatim>\<open>order\s+[0-9a-f]{8,}\<close> matches again.
\<close>

lemma sanitizeDraftResponse_again:
  assumes "\<not> occurs order_hex_pattern (sanitizeDraftResponse draft userId)"
  shows "sanitizeDraftResponse (JStr (sanitizeDraftResponse draft userId)) userId
    = sanitizeDraftResponse draft userId"
proof (rule sanitize_unchanged)
  show "\<not> occurs user_id_pattern (sanitizeDraftResponse draft userId)"
    by (rule sanitized_no_user_id)
  show "\<not> occurs uuid_pattern (sanitizeDraftResponse draft userId)"
    by (rule sanitized_no_uuid)
  show "\<not> occurs hex32_pattern (sanitizeDraftResponse draft userId)"
    by (rule sanitized_no_hex32)
  show "\<not> occurs order_hex_pattern (sanitizeDraftResponse draft userId)"
    by (rule assms)
  show "\<not> occurs spaces_pattern (sanitizeDraftResponse draft userId)"
    by (rule sanitized_no_spaces)
  show "trim (sanitizeDraftResponse draft userId) = sanitizeDraftResponse draft userId"
    unfolding sanitizeDraftResponse_def by (rule trim_trim)
qed

lemma normalizeReportForUi_idempotent_without_order_hex:
  assumes "\<not> occurs order_hex_pattern
    (sanitizeDraftResponse (get_prop rawReport ''draft_response'') userId)"
  shows "normalizeReportForUi (normalizeReportForUi rawReport userId) userId
    = normalizeReportForUi rawReport userId"
  unfolding normalizeReportForUi_again sanitizeDraftResponse_again [OF assms]
  by (auto simp: normalizeReportForUi_def fun_eq_iff)

lemma sanitize_late_once:
  "sanitizeDraftResponse (JStr ''Your order 10023456 20240115 is late'') None
     = ''Your order 20240115 is late''"
  by (simp add: sanitize_simps)

lemma sanitize_late_twice:
  "sanitizeDraftResponse (JStr ''Your order 20240115 is late'') None = ''Your order is late''"
  by (simp add: sanitize_simps)

text \<open>
  Claim C8 fails in the code.  In the draft \<^verbatim>\<open>Your order 10023456 20240115 is late\<close> the
  pattern \<^verbatim>\<open>order\s+[0-9a-f]{8,}\<close> removes the first number and brings the second one next
  to the word \<^verbatim>\<open>order\<close>; normalizing the normalized report removes that one too.  The
  regeneration route stores the normalized report and every read normalizes what is
  stored, so the draft shown after a regeneration and the draft shown on the next read
  differ.
\<close>

theorem normalizeReportForUi_not_idempotent:
  "get_prop
     (normalizeReportForUi [''draft_response'' \<mapsto> JStr ''Your order 10023456 20240115 is late'']
        None) ''draft_response''
     = JStr ''Your order 20240115 is late''
   \<and> get_prop
       (normalizeReportForUi
          (normalizeReportForUi
             [''draft_response'' \<mapsto> JStr ''Your order 10023456 20240115 is late''] None)
          None) ''draft_response''
     = JStr ''Your order is late''
   \<and> normalizeReportForUi
       (normalizeReportForUi [''draft_response'' \<mapsto> JStr ''Your order 10023456 20240115 is late'']
          None) None
     \<noteq> normalizeReportForUi [''draft_response'' \<mapsto> JStr ''Your order 10023456 20240115 is late'']
         None"
proof -
  let ?r = "[''draft_response'' \<mapsto> JStr ''Your order 10023456 20240115 is late'']"
  have raw: "get_prop ?r ''draft_response'' = JStr ''Your order 10023456 20240115 is late''"
    by (simp add: get_prop_def)
  have once: "get_prop (normalizeReportForUi ?r None) ''draft_response''
      = JStr ''Your order 20240115 is late''"
    unfolding normalizeReportForUi_draft raw sanitize_late_once by (rule refl)
  have twice: "get_prop (normalizeReportForUi (normalizeReportForUi ?r None) None) ''draft_response''
      = JStr ''Your order is late''"
    unfolding normalizeReportForUi_draft raw sanitize_late_once sanitize_late_twice by (rule refl)
  have "normalizeReportForUi (normalizeReportForUi ?r None) None \<noteq> normalizeReportForUi ?r None"
  proof
    assume "normalizeReportForUi (normalizeReportForUi ?r None) None = normalizeReportForUi ?r None"
    then have "get_prop (normalizeReportForUi (normalizeReportForUi ?r None) None) ''draft_response''
        = get_prop (normalizeReportForUi ?r None) ''draft_response''"
      by simp
    then show False
      unfolding once twice by simp
  qed
  with once twice show ?thesis
    by blast
qed

end
